theory Spec2Isabelle
  imports Main "HOL-Library.AList" "HOL-Library.Multiset"
begin

section \<open>Symbols and strings\<close>

text \<open>
  Python strings are modelled as \<open>string\<close> (a list of 8-bit characters) holding the
  UTF-8 encoding of the text.  The only non-ASCII symbol the generator uses is the epsilon
  marker, two bytes in UTF-8; the backslash and the double quote are single ASCII bytes and
  never occur inside a multi-byte sequence, so removing or comparing them bytewise agrees
  with Python's code-point operations.
\<close>

definition epsilon :: string where
  "epsilon = [CHR 0xCE, CHR 0xB5]"

definition backslash :: char where
  "backslash = CHR 0x5C"

definition dquote :: char where
  "dquote = CHR 0x22"

text \<open>\<open>str.startswith\<close> and \<open>str.endswith\<close> for a one-character argument.\<close>

definition startswith :: "string \<Rightarrow> char \<Rightarrow> bool" where
  "startswith s c = (case s of [] \<Rightarrow> False | x # _ \<Rightarrow> x = c)"

definition endswith :: "string \<Rightarrow> char \<Rightarrow> bool" where
  "endswith s c = (case rev s of [] \<Rightarrow> False | x # _ \<Rightarrow> x = c)"

text \<open>
  \<open>str.replace(old, new)\<close>: the occurrences of \<open>old\<close> are found left to right without
  overlap.  For an empty \<open>old\<close> Python puts \<open>new\<close> before every character and at the end.
\<close>

function replace_ne :: "string \<Rightarrow> string \<Rightarrow> string \<Rightarrow> string" where
  "replace_ne old new s =
     (if s = [] \<or> old = [] then s
      else if take (length old) s = old
           then new @ replace_ne old new (drop (length old) s)
           else hd s # replace_ne old new (tl s))"
  by pat_completeness auto
termination
  by (relation "measure (\<lambda>(old, new, s). length s)") auto

declare replace_ne.simps [simp del]

definition str_replace :: "string \<Rightarrow> string \<Rightarrow> string \<Rightarrow> string" where
  "str_replace s old new =
     (if old = [] then new @ concat (map (\<lambda>c. c # new) s) else replace_ne old new s)"

text \<open>\<open>LLTableGenerator._normalize_terminal_value\<close>: \<open>value.replace("\\", "")\<close>.\<close>

definition normalize_terminal_value :: "string \<Rightarrow> string" where
  "normalize_terminal_value v = str_replace v [backslash] []"

text \<open>\<open>LLTableGenerator._is_term\<close>.\<close>

definition is_term :: "string \<Rightarrow> bool" where
  "is_term symbol = (startswith symbol dquote \<and> endswith symbol dquote)"

text \<open>
  The children of a SEQUENCE node of the grammar AST, as the \<open>table\<close> property reads them:
  each child has a node type and a value.  The innermost loop of \<open>table\<close> appends the value
  of a SYMBOL child, the normalized value of a TERMINAL child, and skips any other child.
\<close>

datatype node_type = GRAMMAR | PRODUCTION | SYMBOL | EXPRESSION | SEQUENCE | TERMINAL

type_synonym production = "string \<times> string list"

fun sequence_rhs :: "(node_type \<times> string) list \<Rightarrow> string list" where
  "sequence_rhs [] = []"
| "sequence_rhs ((ty, v) # children) =
     (if ty = SYMBOL then v # sequence_rhs children
      else if ty = TERMINAL then normalize_terminal_value v # sequence_rhs children
      else sequence_rhs children)"


section \<open>Symbol classification\<close>

text \<open>
  Modelled from the spec: the module \<open>symbols\<close> (\<open>is_term\<close>, \<open>is_epsilon\<close>, \<open>is_nonterm\<close>)
  is imported by the generator but is not part of the sources at hand.  The spec gives the
  symbol conventions: a terminal is a literal in double quotes (the same test as the
  generator's own \<open>_is_term\<close> above, which stands for the imported \<open>is_term\<close> as well),
  epsilon is the one-character symbol of that name, and every other symbol is a nonterminal.
\<close>

definition is_epsilon :: "string \<Rightarrow> bool" where
  "is_epsilon symbol = (symbol = epsilon)"

definition is_nonterm :: "string \<Rightarrow> bool" where
  "is_nonterm symbol = (\<not> is_term symbol \<and> \<not> is_epsilon symbol)"

section \<open>Errors and results\<close>

text \<open>
  Every exception the modelled code can raise is a value.  \<open>AmbiguousGrammar\<close> is the
  failed assertion of \<open>generate_ktable\<close>, whose message names the nonterminal, the lookahead
  and the list of productions found; \<open>AssertionError\<close> is any other failed assertion; the
  two \<open>Reached...\<close> errors are the exceptions of the iteration guards.  A computation that may run forever has a result of type
  \<open>(error + 'a) option\<close>, where \<open>None\<close> stands for not returning.
\<close>

datatype lookahead = Single string | Tuple "string list"

datatype error =
    KeyError string
  | IndexError
  | AmbiguousGrammar string lookahead "production list"
  | AssertionError
  | ReachedMaxIteration
  | ReachedIterationLimit

definition bind_res :: "(error + 'a) option \<Rightarrow> ('a \<Rightarrow> (error + 'b) option) \<Rightarrow> (error + 'b) option" where
  "bind_res m f = (case m of None \<Rightarrow> None | Some (Inl e) \<Rightarrow> Some (Inl e) | Some (Inr v) \<Rightarrow> f v)"

section \<open>The grammar as an adjacency matrix\<close>

text \<open>
  \<open>self.table\<close> is the list of productions.  Python dictionaries keep insertion order, so
  a dictionary is an association list with distinct keys: \<open>AList.update\<close> replaces the value
  of a key that is present, in place, and appends a new key at the end, and \<open>map_of\<close> looks
  a key up.  \<open>adjacency_matrix\<close> appends each right-hand side to the list of its left-hand
  side.
\<close>

type_synonym adjacency = "(string \<times> string list list) list"

fun adjacency_matrix_loop :: "adjacency \<Rightarrow> production list \<Rightarrow> adjacency" where
  "adjacency_matrix_loop m [] = m"
| "adjacency_matrix_loop m ((lhs, rhs) # ps) =
     adjacency_matrix_loop
       (AList.update lhs ((case map_of m lhs of None \<Rightarrow> [] | Some rs \<Rightarrow> rs) @ [rhs]) m) ps"

definition adjacency_matrix :: "production list \<Rightarrow> adjacency" where
  "adjacency_matrix table = adjacency_matrix_loop [] table"

text \<open>The property \<open>nonterminals\<close>: the left-hand side of every production, in order.\<close>

definition nonterminals :: "production list \<Rightarrow> string list" where
  "nonterminals table = map fst table"

section \<open>Derivation search\<close>

text \<open>
  \<open>_matches\<close> returns \<open>True\<close>, returns \<open>False\<close>, or falls off the end of the function
  (Python's \<open>None\<close>).
\<close>

datatype matches_result = RetTrue | RetFalse | RetNone

type_synonym queue = "(string list \<times> string list) list"

text \<open>
  The inner loop that consumes terminal symbols, started at \<open>i\<close> on \<open>children[i:]\<close> and
  \<open>remaining[i:]\<close>; it returns \<open>skip_this\<close> and the final \<open>i\<close>.
\<close>

fun consume :: "string list \<Rightarrow> string list \<Rightarrow> nat \<Rightarrow> bool \<times> nat" where
  "consume (c # cs) (r # rs) i =
     (if is_nonterm c then (False, i)
      else if c \<noteq> r then (True, i)
      else consume cs rs (Suc i))"
| "consume cs rs i = (False, i)"

text \<open>
  The loop over the productions of the head nonterminal.  The deque is a list whose head
  is its left end: \<open>appendleft\<close> is \<open>#\<close> and \<open>pop\<close> takes the last element.
  \<open>production[0]\<close> raises on an empty right-hand side.
\<close>

fun expand :: "string list list \<Rightarrow> string list \<Rightarrow> string list \<Rightarrow> queue \<Rightarrow> error + queue" where
  "expand [] rest remaining queue = Inr queue"
| "expand (production # ps) rest remaining queue =
     (case production of
        [] \<Rightarrow> Inl IndexError
      | p0 # _ \<Rightarrow>
          if is_epsilon p0 then expand ps rest remaining ((rest, remaining) # queue)
          else expand ps rest remaining ((production @ rest, remaining) # queue))"

text \<open>
  One iteration of the \<open>while queue\<close> loop on a non-empty queue: \<open>Inl\<close> is a \<open>return\<close> or
  an exception, \<open>Inr\<close> is the queue at the next iteration.
\<close>

definition matches_body :: "adjacency \<Rightarrow> queue \<Rightarrow> (error + matches_result) + queue" where
  "matches_body adj queue =
     (let (children, remaining) = last queue; queue = butlast queue in
      if \<not> (children \<noteq> [] \<and> remaining \<noteq> []) then Inr queue
      else
        let (skip_this, i) = consume children remaining 0 in
        if skip_this then Inr queue
        else
          let (children, remaining) =
                (if \<not> is_nonterm (hd children) then (drop i children, drop i remaining)
                 else (children, remaining)) in
          if remaining = [] then Inl (Inr RetTrue)
          else if children = [] then Inr queue
          else if \<not> is_nonterm (hd children) then Inl (Inr RetFalse)
          else
            let head = hd children; rest = tl children in
            (case map_of adj head of
               None \<Rightarrow> Inl (Inl (KeyError head))
             | Some productions \<Rightarrow>
                 (case expand productions rest remaining queue of
                    Inl e \<Rightarrow> Inl (Inl e)
                  | Inr queue' \<Rightarrow> Inr queue')))"

text \<open>
  The \<open>while queue\<close> loop.  Nothing in the source bounds the number of its iterations, so
  it is a partial function: \<open>None\<close> is the loop that never ends.
\<close>

partial_function (option) matches_loop :: "adjacency \<Rightarrow> queue \<Rightarrow> (error + matches_result) option" where
  "matches_loop adj queue =
     (if queue = [] then Some (Inr RetNone)
      else case matches_body adj queue of
             Inl r \<Rightarrow> Some r
           | Inr queue' \<Rightarrow> matches_loop adj queue')"

definition matches :: "adjacency \<Rightarrow> string list \<Rightarrow> string list \<Rightarrow> (error + matches_result) option" where
  "matches adj rhs terms = matches_loop adj [(rhs, terms)]"

text \<open>The same loop cut off after \<open>n\<close> iterations, to run it on concrete inputs.\<close>

fun matches_fuel :: "nat \<Rightarrow> adjacency \<Rightarrow> queue \<Rightarrow> (error + matches_result) option" where
  "matches_fuel 0 adj queue = None"
| "matches_fuel (Suc n) adj queue =
     (if queue = [] then Some (Inr RetNone)
      else case matches_body adj queue of
             Inl r \<Rightarrow> Some r
           | Inr queue' \<Rightarrow> matches_fuel n adj queue')"

text \<open>
  \<open>get_production_leading_to_terminal\<close>: a lookahead that is a single string is wrapped
  into a one-element tuple; the productions whose right-hand side matches are collected in
  order.  Only \<open>True\<close> is truthy among the results of \<open>_matches\<close>.
\<close>

definition remaining_of :: "lookahead \<Rightarrow> string list" where
  "remaining_of term = (case term of Single s \<Rightarrow> [s] | Tuple ts \<Rightarrow> ts)"

fun leading_loop :: "adjacency \<Rightarrow> string \<Rightarrow> string list \<Rightarrow> string list list
    \<Rightarrow> (error + production list) option" where
  "leading_loop adj nonterm remaining [] = Some (Inr [])"
| "leading_loop adj nonterm remaining (rhs # rhss) =
     bind_res (matches adj rhs remaining) (\<lambda>m.
       bind_res (leading_loop adj nonterm remaining rhss) (\<lambda>ps.
         Some (Inr (if m = RetTrue then (nonterm, rhs) # ps else ps))))"

definition get_production_leading_to_terminal ::
    "adjacency \<Rightarrow> string \<Rightarrow> lookahead \<Rightarrow> (error + production list) option" where
  "get_production_leading_to_terminal adj nonterm term =
     (case map_of adj nonterm of
        None \<Rightarrow> Some (Inl (KeyError nonterm))
      | Some rhss \<Rightarrow> leading_loop adj nonterm (remaining_of term) rhss)"

section \<open>Table assembly\<close>

type_synonym row = "(lookahead \<times> production) list"
type_synonym ktable = "(string \<times> row) list"

definition cell :: "ktable \<Rightarrow> string \<Rightarrow> lookahead \<Rightarrow> production option" where
  "cell table nonterm term =
     (case map_of table nonterm of None \<Rightarrow> None | Some row \<Rightarrow> map_of row term)"

text \<open>\<open>table[nonterm][term] = production\<close>.\<close>

definition set_cell :: "ktable \<Rightarrow> string \<Rightarrow> lookahead \<Rightarrow> production \<Rightarrow> error + ktable" where
  "set_cell table nonterm term production =
     (case map_of table nonterm of
        None \<Rightarrow> Inl (KeyError nonterm)
      | Some row \<Rightarrow> Inr (AList.update nonterm (AList.update term production row) table))"

text \<open>The loop over \<open>follow[nonterm]\<close> of the epsilon branch.\<close>

fun eps_loop :: "lookahead list \<Rightarrow> string \<Rightarrow> production \<Rightarrow> ktable \<Rightarrow> error + ktable" where
  "eps_loop [] nonterm production table = Inr table"
| "eps_loop (term2 # ts) nonterm production table =
     (case map_of table nonterm of
        None \<Rightarrow> Inl (KeyError nonterm)
      | Some row \<Rightarrow>
          if map_of row term2 = None
          then (case set_cell table nonterm term2 production of
                  Inl e \<Rightarrow> Inl e
                | Inr table' \<Rightarrow> eps_loop ts nonterm production table')
          else eps_loop ts nonterm production table)"

text \<open>
  The body of the loop over the lookaheads of one nonterminal.  The assertion
  \<open>len(productions) == 1\<close> fails for any other number of productions.
\<close>

definition ktable_term ::
    "adjacency \<Rightarrow> (string \<times> lookahead list) list \<Rightarrow> string \<Rightarrow> lookahead \<Rightarrow> ktable
     \<Rightarrow> (error + ktable) option" where
  "ktable_term adj follow nonterm term table =
     bind_res (get_production_leading_to_terminal adj nonterm term) (\<lambda>productions.
       if length productions \<noteq> 1 then Some (Inl (AmbiguousGrammar nonterm term productions))
       else
         let production = hd productions in
         if term = Single epsilon then
           (case map_of follow nonterm of
              None \<Rightarrow> Some (Inl (KeyError nonterm))
            | Some terms2 \<Rightarrow> Some (eps_loop terms2 nonterm production table))
         else Some (set_cell table nonterm term production))"

fun terms_loop ::
    "adjacency \<Rightarrow> (string \<times> lookahead list) list \<Rightarrow> string \<Rightarrow> lookahead list \<Rightarrow> ktable
     \<Rightarrow> (error + ktable) option" where
  "terms_loop adj follow nonterm [] table = Some (Inr table)"
| "terms_loop adj follow nonterm (term # ts) table =
     bind_res (ktable_term adj follow nonterm term table) (terms_loop adj follow nonterm ts)"

fun first_loop ::
    "adjacency \<Rightarrow> (string \<times> lookahead list) list \<Rightarrow> (string \<times> lookahead list) list \<Rightarrow> ktable
     \<Rightarrow> (error + ktable) option" where
  "first_loop adj follow [] table = Some (Inr table)"
| "first_loop adj follow ((nonterm, terms) # rest) table =
     bind_res (terms_loop adj follow nonterm terms table) (first_loop adj follow rest)"

text \<open>
  \<open>generate_ktable\<close>.  \<open>first\<close> and \<open>follow\<close> map a nonterminal to a set of lookaheads; a
  set is the list of its members in the order the loop meets them.  The initial table has
  an empty row for every nonterminal.  The parameter \<open>k\<close> is not used by the body.
\<close>

definition initial_ktable :: "production list \<Rightarrow> ktable" where
  "initial_ktable table = fold (\<lambda>nonterm t. AList.update nonterm [] t) (nonterminals table) []"

definition generate_ktable ::
    "production list \<Rightarrow> (string \<times> lookahead list) list \<Rightarrow> (string \<times> lookahead list) list \<Rightarrow> nat
     \<Rightarrow> (error + ktable) option" where
  "generate_ktable table first follow k =
     first_loop (adjacency_matrix table) follow first (initial_ktable table)"

section \<open>Properties of tables\<close>

text \<open>
  A dictionary has each key once.  A table is well formed when it is a dictionary of
  dictionaries: then every cell (nonterminal, lookahead) is absent or holds one production.
\<close>

definition is_dict :: "('k \<times> 'v) list \<Rightarrow> bool" where
  "is_dict al = distinct (map fst al)"

definition wf_ktable :: "ktable \<Rightarrow> bool" where
  "wf_ktable T = (is_dict T \<and> (\<forall>(N, row)\<in>set T. is_dict row))"

text \<open>
  The cell of \<open>N\<close> and \<open>t\<close> holds the one production that
  \<open>get_production_leading_to_terminal\<close> returns for them.
\<close>

definition recorded :: "adjacency \<Rightarrow> ktable \<Rightarrow> string \<Rightarrow> lookahead \<Rightarrow> bool" where
  "recorded adj T N t =
     (\<exists>P. get_production_leading_to_terminal adj N t = Some (Inr [P]) \<and> cell T N t = Some P)"

section \<open>Example grammars\<close>

text \<open>A terminal symbol: the text between double quotes.\<close>

definition quoted :: "string \<Rightarrow> string" where
  "quoted s = dquote # s @ [dquote]"

text \<open>
  \<open>S ::= A B\<close>, \<open>A ::= epsilon\<close>, \<open>B ::= epsilon\<close>: the start symbol is nullable through
  two nonterminals, so its FIRST set holds epsilon.
\<close>

definition nullable_pair_grammar :: "production list" where
  "nullable_pair_grammar = [(''S'', [''A'', ''B'']), (''A'', [epsilon]), (''B'', [epsilon])]"

definition nullable_pair_first :: "(string \<times> lookahead list) list" where
  "nullable_pair_first =
     [(''S'', [Single epsilon]), (''A'', [Single epsilon]), (''B'', [Single epsilon])]"

definition nullable_pair_follow :: "(string \<times> lookahead list) list" where
  "nullable_pair_follow =
     [(''S'', [Single ''$'']), (''A'', [Single ''$'']), (''B'', [Single ''$''])]"

text \<open>
  \<open>S ::= A "a"\<close>, \<open>A ::= "a" | epsilon\<close>: FIRST(A) holds \<open>"a"\<close> and epsilon, and FOLLOW(A)
  holds \<open>"a"\<close>.
\<close>

definition nullable_grammar :: "production list" where
  "nullable_grammar =
     [(''S'', [''A'', quoted ''a'']), (''A'', [quoted ''a'']), (''A'', [epsilon])]"

definition nullable_adj :: adjacency where
  "nullable_adj = [(''S'', [[''A'', quoted ''a'']]), (''A'', [[quoted ''a''], [epsilon]])]"

definition nullable_first :: "(string \<times> lookahead list) list" where
  "nullable_first =
     [(''S'', [Single (quoted ''a'')]), (''A'', [Single epsilon, Single (quoted ''a'')])]"

definition nullable_follow :: "(string \<times> lookahead list) list" where
  "nullable_follow = [(''S'', [Single ''$'']), (''A'', [Single (quoted ''a'')])]"

definition nullable_ktable :: ktable where
  "nullable_ktable =
     [(''S'', [(Single (quoted ''a''), (''S'', [''A'', quoted ''a'']))]),
      (''A'', [(Single (quoted ''a''), (''A'', [quoted ''a'']))])]"





section \<open>Properties of the derivation search\<close>





text \<open>
  What the search looks for: \<open>leads adj children remaining\<close> says that the sequence
  \<open>children\<close> can be rewritten, replacing its first nonterminal by one of its right-hand
  sides at a time (a right-hand side that begins with epsilon counts as empty), into a
  sequence that begins with the symbols of the non-empty lookahead \<open>remaining\<close>, the symbols
  in front of each replaced nonterminal being compared with the lookahead first.
\<close>

inductive leads :: "adjacency \<Rightarrow> string list \<Rightarrow> string list \<Rightarrow> bool" for adj where
  last_symbol: "\<not> is_nonterm c \<Longrightarrow> leads adj (c # cs) [c]"
| next_symbol: "\<not> is_nonterm c \<Longrightarrow> leads adj cs r \<Longrightarrow> leads adj (c # cs) (c # r)"
| epsilon_production:
    "is_nonterm c \<Longrightarrow> map_of adj c = Some ps \<Longrightarrow> p \<in> set ps \<Longrightarrow> p \<noteq> [] \<Longrightarrow> is_epsilon (hd p) \<Longrightarrow>
     leads adj cs r \<Longrightarrow> leads adj (c # cs) r"
| production:
    "is_nonterm c \<Longrightarrow> map_of adj c = Some ps \<Longrightarrow> p \<in> set ps \<Longrightarrow> p \<noteq> [] \<Longrightarrow> \<not> is_epsilon (hd p) \<Longrightarrow>
     leads adj (p @ cs) r \<Longrightarrow> leads adj (c # cs) r"




definition nullable_weight :: "string \<Rightarrow> nat" where
  "nullable_weight N = (if N = ''S'' then 2 else 1)"






section \<open>Sequences, FIRST sets and FOLLOW sets\<close>

text \<open>
  Modelled from the spec: the classes \<open>SubProduction\<close>, \<open>FirstSet\<close> and \<open>FollowSet\<close> are
  imported by the generator but are not part of the sources at hand.  By the spec's data
  model a SubProduction is an ordered sequence of symbols with concatenation; a FirstSet is a
  set of SubProductions with union, and \<open>FirstSet()\<close>, the start value of every \<open>reduce\<close> by
  union, is the empty set (were it the set of the empty sequence, every FIRST set would hold
  epsilon, against the scenarios of the spec); a FollowSet is a record of the reference nonterminal \<open>follow\<close>,
  the parameter \<open>k\<close>, the sequences that are resolved (\<open>completes\<close>, and \<open>additional\<close> for
  the short ones), the flags \<open>is_complete\<close> and \<open>changed\<close>, and, when partial, the
  contributions that wait for the FOLLOW of \<open>follow\<close>.  \<open>FollowSet.complete(seqs, f, k)\<close>
  and \<open>FollowSet.partial(seqs, f, k)\<close> build a complete and a partial set pointing at \<open>f\<close>.
  A set is the list of its members, each once, in the order they were added.
\<close>

type_synonym subproduction = "string list"

type_synonym firstset = "subproduction list"

record followset =
  follow :: string
  fk :: nat
  is_complete :: bool
  changed :: bool
  completes :: "subproduction list"
  additional :: "subproduction list"
  partials :: "subproduction list"

definition FollowSet_complete :: "subproduction list \<Rightarrow> string \<Rightarrow> nat \<Rightarrow> followset" where
  "FollowSet_complete seqs f k =
     \<lparr>follow = f, fk = k, is_complete = True, changed = False,
      completes = seqs, additional = [], partials = []\<rparr>"

definition FollowSet_partial :: "subproduction list \<Rightarrow> string \<Rightarrow> nat \<Rightarrow> followset" where
  "FollowSet_partial seqs f k =
     \<lparr>follow = f, fk = k, is_complete = False, changed = False,
      completes = [], additional = [], partials = seqs\<rparr>"

text \<open>
  Modelled from the spec: \<open>FollowSet.upgrade(a, b)\<close> joins two FollowSets of the same
  reference nonterminal: the result holds the resolved sequences of both.
\<close>

definition upgrade :: "followset \<Rightarrow> followset \<Rightarrow> followset" where
  "upgrade a b =
     \<lparr>follow = follow a, fk = max (fk a) (fk b),
      is_complete = (is_complete a \<and> is_complete b), changed = (changed a \<or> changed b),
      completes = List.union (completes a) (completes b),
      additional = List.union (additional a) (additional b),
      partials = List.union (partials a) (partials b)\<rparr>"

text \<open>
  The parts of the generator that the FOLLOW engine calls and that rest on code not at hand
  are parameters of the model, gathered in one record: \<open>kfirst_gen symbol k allow_underflow\<close>
  is the list of the FirstSets that \<open>_kfirst\<close> yields, \<open>get_exact symbol n\<close> the list that
  \<open>Grammar.get_exact\<close> yields, \<open>append_fs self other\<close> the state of \<open>self\<close> after
  \<open>self.append(other)\<close>, and \<open>normalized\<close> is \<open>SubProduction.normalized\<close>.
\<close>

record collaborators =
  kfirst_gen :: "string \<Rightarrow> nat \<Rightarrow> bool \<Rightarrow> firstset list"
  get_exact :: "string \<Rightarrow> nat \<Rightarrow> subproduction list"
  append_fs :: "followset \<Rightarrow> followset \<Rightarrow> followset"
  normalized :: "subproduction \<Rightarrow> subproduction"

section \<open>FIRST: the aggregation\<close>

text \<open>\<open>reduce(FirstSet.__or__, yielded, FirstSet())\<close>.\<close>

definition reduce_union :: "firstset list \<Rightarrow> firstset" where
  "reduce_union yielded = foldl List.union [] yielded"

text \<open>
  The element that \<open>kfirst\<close> adds for a normalized sequence: the bare string for a sequence
  of length one, the string epsilon for the empty sequence, the tuple otherwise.
\<close>

definition first_entry :: "subproduction \<Rightarrow> lookahead" where
  "first_entry n =
     (if length n = 1 then Single (n ! 0)
      else if n = [] then Single epsilon
      else Tuple n)"

text \<open>The loop over \<open>first_set.sequences\<close>, adding to the set \<open>F[symbol]\<close>.\<close>

fun add_sequences :: "collaborators \<Rightarrow> subproduction list \<Rightarrow> lookahead list \<Rightarrow> lookahead list" where
  "add_sequences env [] s = s"
| "add_sequences env (subproduction # rest) s =
     add_sequences env rest (List.insert (first_entry (normalized env subproduction)) s)"

text \<open>
  The loop over \<open>F.keys()\<close> for one \<open>i\<close>: every key is visited once, in order, and only
  its own set is added to.
\<close>

definition kfirst_round ::
    "collaborators \<Rightarrow> nat \<Rightarrow> (string \<times> lookahead list) list \<Rightarrow> (string \<times> lookahead list) list" where
  "kfirst_round env i F =
     map (\<lambda>(symbol, s). (symbol, add_sequences env (reduce_union (kfirst_gen env symbol i True)) s)) F"

definition initial_sets :: "production list \<Rightarrow> (string \<times> 'a list) list" where
  "initial_sets table = fold (\<lambda>x F. AList.update x [] F) (map fst table) []"

definition kfirst :: "collaborators \<Rightarrow> production list \<Rightarrow> nat \<Rightarrow> (string \<times> lookahead list) list" where
  "kfirst env table k = fold (kfirst_round env) [1..<k + 1] (initial_sets table)"

section \<open>FOLLOW: permutations\<close>

text \<open>
  \<open>_kfollow_resolve_permutation\<close>.  \<open>last_nonzero\<close> is the index of the last non-zero length
  of the permutation, or \<open>-1\<close>.
\<close>

definition last_nonzero :: "nat list \<Rightarrow> int" where
  "last_nonzero perm = int (length (dropWhile (\<lambda>n. n = 0) (rev perm))) - 1"

text \<open>
  The derivations taken from FIRST for the last non-zero position: every sequence of every
  FirstSet that \<open>_kfirst(symbol, n, True)\<close> yields, but the sequence that is epsilon alone.
\<close>

definition first_pull :: "collaborators \<Rightarrow> string \<Rightarrow> nat \<Rightarrow> subproduction list" where
  "first_pull env symbol n =
     concat (map (filter (\<lambda>subproduction. \<not> (length subproduction = 1 \<and> subproduction ! 0 = epsilon)))
               (kfirst_gen env symbol n True))"

text \<open>
  The loop over the positions of the permutation, from position \<open>i\<close> on.  \<open>Inr None\<close> is
  the early \<open>return\<close> when a position has no derivation.
\<close>

fun resolve_levels ::
    "collaborators \<Rightarrow> string list \<Rightarrow> nat \<Rightarrow> int \<Rightarrow> bool \<Rightarrow> nat \<Rightarrow> nat list
     \<Rightarrow> error + subproduction list list option" where
  "resolve_levels env rhs base_index ln allow_firstset i [] = Inr (Some [])"
| "resolve_levels env rhs base_index ln allow_firstset i (n # ns) =
     (if length rhs \<le> i + base_index then Inl IndexError
      else
        let symbol = rhs ! (i + base_index);
            all_exact_length_productions =
              (if int i = ln \<and> \<not> is_term symbol \<and> allow_firstset
               then first_pull env symbol n
               else get_exact env symbol n)
        in if all_exact_length_productions = [] then Inr None
           else (case resolve_levels env rhs base_index ln allow_firstset (Suc i) ns of
                   Inl e \<Rightarrow> Inl e
                 | Inr None \<Rightarrow> Inr None
                 | Inr (Some levels) \<Rightarrow> Inr (Some (all_exact_length_productions # levels))))"

text \<open>
  The stack loop that zips the per-position lists up.  The stack is last in, first out, so
  the entries pushed for one position are taken in reverse, each followed at once by
  everything that grows from it.
\<close>

fun zip_up :: "subproduction \<Rightarrow> subproduction list list \<Rightarrow> subproduction list" where
  "zip_up current [] = [current]"
| "zip_up current (level # levels) =
     concat (map (\<lambda>terminal. zip_up (current @ terminal) levels) (rev level))"

definition kfollow_resolve_permutation ::
    "collaborators \<Rightarrow> production \<Rightarrow> nat \<Rightarrow> nat list \<Rightarrow> bool \<Rightarrow> error + subproduction list" where
  "kfollow_resolve_permutation env production base_index current_permutation allow_firstset =
     (let rhs = snd production in
      if \<not> base_index < length rhs then Inl AssertionError
      else (case resolve_levels env rhs base_index (last_nonzero current_permutation)
                   allow_firstset 0 current_permutation of
              Inl e \<Rightarrow> Inl e
            | Inr None \<Rightarrow> Inr []
            | Inr (Some levels) \<Rightarrow> Inr (zip_up [] levels)))"

text \<open>
  \<open>_kfollow_permutations\<close>.  The queue is a Python list used as a stack: \<open>pop\<close> takes its
  last element and \<open>append\<close> adds at the end.  One iteration of the loop, after the guard,
  gives the FollowSets it yields and the queue it leaves.
\<close>

definition permutations_body ::
    "collaborators \<Rightarrow> production \<Rightarrow> nat \<Rightarrow> nat \<Rightarrow> nat list list
     \<Rightarrow> error + (followset list \<times> nat list list)" where
  "permutations_body env production base_index k queue =
     (let lhs = fst production; rhs = snd production;
          current_permutation = last queue; queue = butlast queue;
          at_max_k = (sum_list current_permutation = k);
          assigned_each_symbol_value =
            (int (length rhs) - int base_index \<le> int (length current_permutation))
      in if at_max_k then
           (case kfollow_resolve_permutation env production base_index current_permutation True of
              Inl e \<Rightarrow> Inl e
            | Inr seqs \<Rightarrow> Inr ([FollowSet_complete seqs lhs k], queue))
         else if assigned_each_symbol_value then
           (case kfollow_resolve_permutation env production base_index current_permutation False of
              Inl e \<Rightarrow> Inl e
            | Inr seqs \<Rightarrow> Inr ([FollowSet_partial seqs lhs k], queue))
         else
           Inr ([], queue @ map (\<lambda>i. current_permutation @ [i])
                              [0..<nat (int k - int (sum_list current_permutation) + 1)]))"

text \<open>
  The \<open>while queue\<close> loop with its guard.  The result carries the state at the exit of the
  loop: the outcome (the exception, or the FollowSets yielded), the value of \<open>guard\<close> and
  the queue.
\<close>

fun permutations_loop ::
    "collaborators \<Rightarrow> production \<Rightarrow> nat \<Rightarrow> nat \<Rightarrow> nat \<Rightarrow> nat list list
     \<Rightarrow> (error + followset list) \<times> nat \<times> nat list list" where
  "permutations_loop env production base_index k 0 queue =
     (if queue = [] then (Inr [], 0, queue) else (Inl ReachedMaxIteration, 0, queue))"
| "permutations_loop env production base_index k (Suc guard) queue =
     (if queue = [] then (Inr [], Suc guard, queue)
      else (case permutations_body env production base_index k queue of
              Inl e \<Rightarrow> (Inl e, guard, queue)
            | Inr (yielded, queue') \<Rightarrow>
                (case permutations_loop env production base_index k guard queue' of
                   (Inl e, g, q) \<Rightarrow> (Inl e, g, q)
                 | (Inr later, g, q) \<Rightarrow> (Inr (yielded @ later), g, q))))"

definition kfollow_permutations_run ::
    "collaborators \<Rightarrow> production \<Rightarrow> nat \<Rightarrow> nat
     \<Rightarrow> (error + followset list) \<times> nat \<times> nat list list" where
  "kfollow_permutations_run env production base_index k =
     (if base_index = length (snd production)
      then (Inr [FollowSet_partial [[]] (fst production) k], 500, [])
      else permutations_loop env production base_index k 500 (map (\<lambda>i. [i]) [0..<k + 1]))"

definition kfollow_permutations ::
    "collaborators \<Rightarrow> production \<Rightarrow> nat \<Rightarrow> nat \<Rightarrow> error + followset list" where
  "kfollow_permutations env production base_index k =
     fst (kfollow_permutations_run env production base_index k)"

section \<open>Properties of the permutation enumeration\<close>

text \<open>
  The tuples that the enumeration classifies, for \<open>m\<close> symbols behind the occurrence and
  the bound \<open>k\<close>, in the order in which it takes them: a tuple whose lengths sum to \<open>k\<close>,
  or that gives a length to each of the \<open>m\<close> symbols, is classified; any other tuple is
  extended by every length that the budget leaves, the greatest first.  \<open>visits\<close> counts the
  tuples that are taken on the way, classified or extended.
\<close>

function tuples_from :: "nat \<Rightarrow> nat \<Rightarrow> nat list \<Rightarrow> nat list list" where
  "tuples_from m k p =
     (if sum_list p = k \<or> m \<le> length p then [p]
      else concat (map (\<lambda>i. tuples_from m k (p @ [i])) (rev [0..<k - sum_list p + 1])))"
  by pat_completeness auto
termination
  by (relation "measure (\<lambda>(m, k, p). m - length p)") auto

declare tuples_from.simps [simp del]

definition tuples :: "nat \<Rightarrow> nat \<Rightarrow> nat list list" where
  "tuples m k = concat (map (\<lambda>i. tuples_from m k [i]) (rev [0..<k + 1]))"

function visits_from :: "nat \<Rightarrow> nat \<Rightarrow> nat list \<Rightarrow> nat" where
  "visits_from m k p =
     (if sum_list p = k \<or> m \<le> length p then 1
      else 1 + sum_list (map (\<lambda>i. visits_from m k (p @ [i])) [0..<k - sum_list p + 1]))"
  by pat_completeness auto
termination
  by (relation "measure (\<lambda>(m, k, p). m - length p)") auto

declare visits_from.simps [simp del]

definition visits :: "nat \<Rightarrow> nat \<Rightarrow> nat" where
  "visits m k = sum_list (map (\<lambda>i. visits_from m k [i]) [0..<k + 1])"

text \<open>
  What a classified tuple stands for.  Position \<open>i\<close> of the tuple \<open>p\<close> is its last non-zero
  position when \<open>p ! i\<close> is not zero and every later length is zero.  The list of
  derivations of position \<open>i\<close> is taken from FIRST (\<open>_kfirst\<close> with underflow allowed, less
  the sequence that is epsilon alone) when FIRST is allowed, the position is the last non-zero
  one and its symbol is not a terminal; it is the list of the exact-length derivations of
  the symbol otherwise.  The derivations of the tuple are the concatenations of one
  derivation for each position, and there is none when some position has none.
\<close>

definition last_assigned :: "nat list \<Rightarrow> nat \<Rightarrow> bool" where
  "last_assigned p i = (p ! i \<noteq> 0 \<and> (\<forall>n\<in>set (drop (Suc i) p). n = 0))"

definition position_derivations ::
    "collaborators \<Rightarrow> string list \<Rightarrow> nat \<Rightarrow> nat list \<Rightarrow> bool \<Rightarrow> nat \<Rightarrow> subproduction list" where
  "position_derivations env rhs base_index p allow_firstset i =
     (let symbol = rhs ! (i + base_index)
      in if allow_firstset \<and> last_assigned p i \<and> \<not> is_term symbol
         then first_pull env symbol (p ! i)
         else get_exact env symbol (p ! i))"

definition derivations ::
    "collaborators \<Rightarrow> string list \<Rightarrow> nat \<Rightarrow> nat list \<Rightarrow> bool \<Rightarrow> subproduction list" where
  "derivations env rhs base_index p allow_firstset =
     (let levels = map (position_derivations env rhs base_index p allow_firstset) [0..<length p]
      in if [] \<in> set levels then [] else zip_up [] levels)"

text \<open>
  The FollowSet for a classified tuple: complete when the lengths sum to \<open>k\<close>, with FIRST
  allowed; partial otherwise, with exact-length derivations only; both point at the
  left-hand side of the production.
\<close>

definition classified :: "collaborators \<Rightarrow> production \<Rightarrow> nat \<Rightarrow> nat \<Rightarrow> nat list \<Rightarrow> followset" where
  "classified env production base_index k p =
     (if sum_list p = k
      then FollowSet_complete (derivations env (snd production) base_index p True) (fst production) k
      else FollowSet_partial (derivations env (snd production) base_index p False) (fst production) k)"

text \<open>
  For the proofs: the tuples classified from a queue, the last entry of the queue being taken
  first; the tuples taken on the way; and what holds of every tuple of the queue: it is not
  empty, has at most \<open>m\<close> lengths, and they sum to at most \<open>k\<close>.
\<close>

definition walk :: "nat \<Rightarrow> nat \<Rightarrow> nat list list \<Rightarrow> nat list list" where
  "walk m k q = concat (map (tuples_from m k) (rev q))"

definition total_visits :: "nat \<Rightarrow> nat \<Rightarrow> nat list list \<Rightarrow> nat" where
  "total_visits m k q = sum_list (map (visits_from m k) q)"

definition fits :: "nat \<Rightarrow> nat \<Rightarrow> nat list \<Rightarrow> bool" where
  "fits m k p = (p \<noteq> [] \<and> length p \<le> m \<and> sum_list p \<le> k)"

section \<open>FIRST: the recursive generator\<close>











section \<open>FOLLOW: collection, fixpoint and driver\<close>

text \<open>
  \<open>followset_lookup\<close> maps a nonterminal to the list of its FollowSets.  The FollowSets are
  objects that the fixpoint mutates in place while it reads others of the same table, so the
  table is the store: a FollowSet is addressed by the position \<open>a\<close> of its key and its
  position \<open>b\<close> in the list of that key, and every read takes the current state.
\<close>

type_synonym follow_lookup = "(string \<times> followset list) list"

definition get_fs :: "follow_lookup \<Rightarrow> nat \<Rightarrow> nat \<Rightarrow> followset" where
  "get_fs F a b = snd (F ! a) ! b"

definition put_fs :: "follow_lookup \<Rightarrow> nat \<Rightarrow> nat \<Rightarrow> followset \<Rightarrow> follow_lookup" where
  "put_fs F a b fs = F[a := (fst (F ! a), (snd (F ! a))[b := fs])]"

fun key_index :: "(string \<times> 'v) list \<Rightarrow> string \<Rightarrow> nat option" where
  "key_index [] key = None"
| "key_index ((x, v) # rest) key =
     (if x = key then Some 0 else map_option Suc (key_index rest key))"

text \<open>
  \<open>for other in followset_lookup[followset.follow]: followset.append(other)\<close>, for the
  FollowSet at \<open>(a, b)\<close> and the list of the key at position \<open>c\<close>.
\<close>

fun append_others :: "collaborators \<Rightarrow> follow_lookup \<Rightarrow> nat \<Rightarrow> nat \<Rightarrow> nat \<Rightarrow> nat list \<Rightarrow> follow_lookup" where
  "append_others env F a b c [] = F"
| "append_others env F a b c (m # ms) =
     append_others env (put_fs F a b (append_fs env (get_fs F a b) (get_fs F c m))) a b c ms"

text \<open>The body of the loop over the FollowSets of one key.\<close>

definition fixpoint_followset :: "collaborators \<Rightarrow> follow_lookup \<Rightarrow> nat \<Rightarrow> nat \<Rightarrow> error + follow_lookup" where
  "fixpoint_followset env F a b =
     (let F = put_fs F a b ((get_fs F a b)\<lparr>changed := False\<rparr>) in
      if is_complete (get_fs F a b) then Inr F
      else (case key_index F (follow (get_fs F a b)) of
              None \<Rightarrow> Inl (KeyError (follow (get_fs F a b)))
            | Some c \<Rightarrow> Inr (append_others env F a b c [0..<length (snd (F ! c))])))"

fun followsets_loop :: "collaborators \<Rightarrow> follow_lookup \<Rightarrow> nat \<Rightarrow> nat list \<Rightarrow> error + follow_lookup" where
  "followsets_loop env F a [] = Inr F"
| "followsets_loop env F a (b # bs) =
     (case fixpoint_followset env F a b of
        Inl e \<Rightarrow> Inl e
      | Inr F' \<Rightarrow> followsets_loop env F' a bs)"

text \<open>
  The loop over \<open>followset_lookup.values()\<close>, with
  \<open>changed |= any([x.changed for x in followsets])\<close> after the FollowSets of each key.
\<close>

fun values_loop ::
    "collaborators \<Rightarrow> follow_lookup \<Rightarrow> bool \<Rightarrow> nat list \<Rightarrow> error + (follow_lookup \<times> bool)" where
  "values_loop env F chg [] = Inr (F, chg)"
| "values_loop env F chg (a # as) =
     (case followsets_loop env F a [0..<length (snd (F ! a))] of
        Inl e \<Rightarrow> Inl e
      | Inr F' \<Rightarrow> values_loop env F' (chg \<or> (\<exists>x\<in>set (snd (F' ! a)). changed x)) as)"

definition fixpoint_pass :: "collaborators \<Rightarrow> follow_lookup \<Rightarrow> error + (follow_lookup \<times> bool)" where
  "fixpoint_pass env F = values_loop env F False [0..<length F]"

text \<open>
  The \<open>while changed\<close> loop of \<open>_kfollow_fixpoint_solution\<close>, entered with \<open>changed\<close> true.
  The result carries the outcome, the value of \<open>iteration_guard\<close> at the exit, and the value
  that the loop condition had when it was last tested.
\<close>

fun fixpoint_loop ::
    "collaborators \<Rightarrow> nat \<Rightarrow> follow_lookup \<Rightarrow> (error + follow_lookup) \<times> nat \<times> bool" where
  "fixpoint_loop env 0 F = (Inl ReachedIterationLimit, 0, True)"
| "fixpoint_loop env (Suc iteration_guard) F =
     (case fixpoint_pass env F of
        Inl e \<Rightarrow> (Inl e, iteration_guard, True)
      | Inr (F', chg) \<Rightarrow>
          if chg then fixpoint_loop env iteration_guard F'
          else (Inr F', iteration_guard, False))"

definition kfollow_fixpoint_solution :: "collaborators \<Rightarrow> follow_lookup \<Rightarrow> error + follow_lookup" where
  "kfollow_fixpoint_solution env F = fst (fixpoint_loop env 500 F)"

text \<open>
  \<open>_kfollow\<close>: for every production, in order, and every occurrence of the symbol in its
  right-hand side, the FollowSets of \<open>_kfollow_permutations\<close> behind that occurrence.
  Modelled from the spec: iterating the missing class \<open>Grammar\<close> gives its productions.
\<close>

fun occurrences_loop ::
    "collaborators \<Rightarrow> production \<Rightarrow> nat \<Rightarrow> nat list \<Rightarrow> error + followset list" where
  "occurrences_loop env production k [] = Inr []"
| "occurrences_loop env production k (i # is) =
     (case kfollow_permutations env production (i + 1) k of
        Inl e \<Rightarrow> Inl e
      | Inr yielded \<Rightarrow>
          (case occurrences_loop env production k is of
             Inl e \<Rightarrow> Inl e
           | Inr later \<Rightarrow> Inr (yielded @ later)))"

fun kfollow_gen :: "collaborators \<Rightarrow> production list \<Rightarrow> string \<Rightarrow> nat \<Rightarrow> error + followset list" where
  "kfollow_gen env [] symbol k = Inr []"
| "kfollow_gen env ((lhs, rhs) # G) symbol k =
     (case occurrences_loop env (lhs, rhs) k [i \<leftarrow> [0..<length rhs]. rhs ! i = symbol] of
        Inl e \<Rightarrow> Inl e
      | Inr yielded \<Rightarrow>
          (case kfollow_gen env G symbol k of
             Inl e \<Rightarrow> Inl e
           | Inr later \<Rightarrow> Inr (yielded @ later)))"

text \<open>
  The loop over \<open>F.keys()\<close> of the driver: the FollowSets yielded for the key at position
  \<open>a\<close> are appended to its list.
\<close>

fun collect_loop ::
    "collaborators \<Rightarrow> production list \<Rightarrow> nat \<Rightarrow> follow_lookup \<Rightarrow> nat list \<Rightarrow> error + follow_lookup" where
  "collect_loop env table i F [] = Inr F"
| "collect_loop env table i F (a # as) =
     (case kfollow_gen env table (fst (F ! a)) i of
        Inl e \<Rightarrow> Inl e
      | Inr yielded \<Rightarrow> collect_loop env table i (F[a := (fst (F ! a), snd (F ! a) @ yielded)]) as)"

fun kfollow_rounds ::
    "collaborators \<Rightarrow> production list \<Rightarrow> follow_lookup \<Rightarrow> nat list \<Rightarrow> error + follow_lookup" where
  "kfollow_rounds env table F [] = Inr F"
| "kfollow_rounds env table F (i # is) =
     (case collect_loop env table i F [0..<length F] of
        Inl e \<Rightarrow> Inl e
      | Inr F' \<Rightarrow>
          (case kfollow_fixpoint_solution env F' of
             Inl e \<Rightarrow> Inl e
           | Inr F'' \<Rightarrow> kfollow_rounds env table F'' is))"

text \<open>
  The flattening at the end of \<open>kfollow\<close>.  \<open>ret\<close> is a \<open>defaultdict\<close> of sets: adding to a
  key that is absent creates it.  \<open>joined\<close> is the \<open>reduce\<close> by \<open>upgrade\<close> over the FollowSets
  of one reference nonterminal; the reference is taken from the FollowSets themselves, so the
  group is never empty.
\<close>

definition follow_entry :: "subproduction \<Rightarrow> lookahead" where
  "follow_entry subproduction =
     (if length subproduction = 1 then Single (subproduction ! 0) else Tuple subproduction)"

definition ret_add :: "(string \<times> lookahead list) list \<Rightarrow> string \<Rightarrow> lookahead \<Rightarrow> (string \<times> lookahead list) list" where
  "ret_add ret symbol x =
     AList.update symbol (List.insert x (case map_of ret symbol of None \<Rightarrow> [] | Some s \<Rightarrow> s)) ret"

definition joined :: "followset list \<Rightarrow> string \<Rightarrow> followset" where
  "joined followsets f =
     (let group = filter (\<lambda>followset. follow followset = f) followsets
      in foldl upgrade (hd group) (tl group))"

fun flatten_follows ::
    "(string \<times> lookahead list) list \<Rightarrow> string \<Rightarrow> followset list \<Rightarrow> string list
     \<Rightarrow> (string \<times> lookahead list) list" where
  "flatten_follows ret symbol followsets [] = ret"
| "flatten_follows ret symbol followsets (f # fs) =
     (let followset = joined followsets f
      in flatten_follows
           (fold (\<lambda>subproduction r. ret_add r symbol (follow_entry subproduction))
                 (List.union (additional followset) (completes followset)) ret)
           symbol followsets fs)"

fun flatten_items :: "(string \<times> lookahead list) list \<Rightarrow> follow_lookup \<Rightarrow> (string \<times> lookahead list) list" where
  "flatten_items ret [] = ret"
| "flatten_items ret ((symbol, followsets) # rest) =
     flatten_items (flatten_follows ret symbol followsets (remdups (map follow followsets))) rest"

text \<open>
  \<open>kfollow\<close>.  \<open>start\<close> is \<open>self.start\<close>; \<open>F[self.start]\<close> raises when the start symbol has
  no production.
\<close>

definition initial_start :: "string \<Rightarrow> followset" where
  "initial_start start = FollowSet_complete [[''$'']] start 1"

definition seed_start :: "production list \<Rightarrow> string \<Rightarrow> error + follow_lookup" where
  "seed_start table start =
     (let F = initial_sets table in
      case key_index F start of
        None \<Rightarrow> Inl (KeyError start)
      | Some a \<Rightarrow> Inr (F[a := (fst (F ! a), snd (F ! a) @ [initial_start start])]))"

definition kfollow ::
    "collaborators \<Rightarrow> production list \<Rightarrow> string \<Rightarrow> nat \<Rightarrow> error + (string \<times> lookahead list) list" where
  "kfollow env table start k =
     (case seed_start table start of
        Inl e \<Rightarrow> Inl e
      | Inr F \<Rightarrow>
          (case kfollow_rounds env table F [1..<k + 1] of
             Inl e \<Rightarrow> Inl e
           | Inr F' \<Rightarrow> Inr (flatten_items [] F')))"

section \<open>Properties of the FOLLOW tables\<close>

text \<open>
  The shape of a table of FollowSets: its keys, in order, with the length of the list of
  each.  \<open>protected\<close> says that the position \<open>(a, b)\<close> of the table holds, under the key
  \<open>start\<close>, a complete FollowSet pointing at \<open>start\<close> with the end-of-input sentinel among
  its resolved sequences.  \<open>has_entry\<close> says that the set of a key in the flattened mapping
  holds an element.
\<close>

definition shape :: "follow_lookup \<Rightarrow> (string \<times> nat) list" where
  "shape F = map (\<lambda>entry. (fst entry, length (snd entry))) F"

definition protected :: "string \<Rightarrow> nat \<Rightarrow> nat \<Rightarrow> follow_lookup \<Rightarrow> bool" where
  "protected start a b F =
     (a < length F \<and> fst (F ! a) = start \<and> b < length (snd (F ! a))
      \<and> is_complete (get_fs F a b) \<and> follow (get_fs F a b) = start
      \<and> [''$''] \<in> set (completes (get_fs F a b)))"

definition has_entry :: "(string \<times> lookahead list) list \<Rightarrow> string \<Rightarrow> lookahead \<Rightarrow> bool" where
  "has_entry ret symbol x = (\<exists>s. map_of ret symbol = Some s \<and> x \<in> set s)"

section \<open>Example collaborators\<close>

text \<open>
  Modelled from the spec: \<open>FollowSet.append(other)\<close>, for the examples.  Every stored partial
  contribution is extended by every resolved sequence of \<open>other\<close> and cut to \<open>k\<close> symbols;
  a sequence of length \<open>k\<close> goes to \<open>completes\<close>, a shorter one to \<open>additional\<close>, and
  \<open>changed\<close> is set when a sequence is new.
\<close>

definition spec_append :: "followset \<Rightarrow> followset \<Rightarrow> followset" where
  "spec_append self other =
     (let new = concat (map (\<lambda>p. map (\<lambda>s. take (fk self) (p @ s)) (completes other @ additional other))
                            (partials self));
          added = (\<exists>x\<in>set new. x \<notin> set (completes self) \<and> x \<notin> set (additional self))
      in self\<lparr>completes := List.union (completes self) (filter (\<lambda>x. length x = fk self) new),
               additional := List.union (additional self) (filter (\<lambda>x. length x < fk self) new),
               changed := (changed self \<or> added)\<rparr>)"

definition drop_epsilon :: "subproduction \<Rightarrow> subproduction" where
  "drop_epsilon subproduction = filter (\<lambda>s. s \<noteq> epsilon) subproduction"

text \<open>
  \<open>S ::= A B\<close>, \<open>A ::= "a"\<close>, \<open>B ::= "b"\<close>, with what \<open>_kfirst\<close> and \<open>get_exact\<close> give for its
  symbols: a terminal derives itself, of length one.
\<close>

definition sequence_grammar :: "production list" where
  "sequence_grammar =
     [(''S'', [''A'', ''B'']), (''A'', [quoted ''a'']), (''B'', [quoted ''b''])]"

definition sequence_kfirst_gen :: "string \<Rightarrow> nat \<Rightarrow> bool \<Rightarrow> firstset list" where
  "sequence_kfirst_gen symbol k allow_underflow =
     (if k = 1 \<and> (symbol = ''S'' \<or> symbol = ''A'') then [[[quoted ''a'']]]
      else if k = 1 \<and> symbol = ''B'' then [[[quoted ''b'']]]
      else if k = 2 \<and> symbol = ''S'' then [[[quoted ''a'', quoted ''b'']]]
      else [])"

definition sequence_get_exact :: "string \<Rightarrow> nat \<Rightarrow> subproduction list" where
  "sequence_get_exact symbol n =
     (if n = 1 \<and> is_term symbol then [[symbol]]
      else if n = 1 \<and> symbol = ''A'' then [[quoted ''a'']]
      else if n = 1 \<and> symbol = ''B'' then [[quoted ''b'']]
      else if n = 2 \<and> symbol = ''S'' then [[quoted ''a'', quoted ''b'']]
      else [])"

definition sequence_env :: collaborators where
  "sequence_env =
     \<lparr>kfirst_gen = sequence_kfirst_gen, get_exact = sequence_get_exact,
      append_fs = spec_append, normalized = drop_epsilon\<rparr>"

text \<open>The same, with an \<open>append\<close> that reports a change every time.\<close>

definition restless_env :: collaborators where
  "restless_env = sequence_env\<lparr>append_fs := (\<lambda>self other. self\<lparr>changed := True\<rparr>)\<rparr>"

text \<open>What \<open>_kfirst\<close> yields for \<open>S ::= A "a"\<close>, \<open>A ::= "a" | epsilon\<close>.\<close>

definition nullable_kfirst_gen :: "string \<Rightarrow> nat \<Rightarrow> bool \<Rightarrow> firstset list" where
  "nullable_kfirst_gen symbol k allow_underflow =
     (if k = 1 \<and> symbol = ''A'' then [[[quoted ''a'']], [[epsilon]]]
      else if k = 1 \<and> symbol = ''S'' then [[[quoted ''a'']], [[epsilon, quoted ''a'']]]
      else if k = 2 \<and> symbol = ''S'' then [[[quoted ''a'', quoted ''a'']]]
      else [])"

definition nullable_env :: collaborators where
  "nullable_env =
     \<lparr>kfirst_gen = nullable_kfirst_gen, get_exact = sequence_get_exact,
      append_fs = spec_append, normalized = drop_epsilon\<rparr>"

text \<open>
  A production with six terminals behind the occurrence of \<open>A\<close>, and two small tables of
  FollowSets: one partial set that waits for its own key, and one that waits for the
  seeded start symbol.
\<close>

definition long_production :: production where
  "long_production =
     (''S'', [''A'', quoted ''b'', quoted ''b'', quoted ''b'', quoted ''b'', quoted ''b'', quoted ''b''])"

definition looping_lookup :: follow_lookup where
  "looping_lookup = [(''S'', [FollowSet_partial [[]] ''S'' 1])]"

definition settling_lookup :: follow_lookup where
  "settling_lookup = [(''S'', [initial_start ''S'']), (''B'', [FollowSet_partial [[]] ''S'' 1])]"

definition settled_lookup :: follow_lookup where
  "settled_lookup =
     [(''S'', [initial_start ''S'']),
      (''B'', [(FollowSet_partial [[]] ''S'' 1)\<lparr>completes := [[''$'']]\<rparr>])]"

section \<open>The emitter\<close>




text \<open>\<open>sep.join(lines)\<close>, and the decimal digits of a number, as \<open>f"{k}"\<close> prints them.\<close>

definition join :: "string \<Rightarrow> string list \<Rightarrow> string" where
  "join sep lines =
     (case lines of [] \<Rightarrow> [] | line # rest \<Rightarrow> line @ concat (map (\<lambda>l. sep @ l) rest))"




text \<open>
  What \<open>generate_parser\<close> takes from outside the generator: the BNF parser with the \<open>table\<close>
  property and the start marker (\<open>parse_grammar\<close> gives the list of productions and the
  start symbol of a grammar text) and the built-in \<open>repr\<close> on strings.
\<close>

record host =
  parse_grammar :: "string \<Rightarrow> production list \<times> string"
  py_repr :: "string \<Rightarrow> string"

text \<open>
  \<open>normalize_for_table\<close>: a quoted string loses its two quotes (\<open>symbol[1:-1]\<close>), any other
  string is printed by \<open>repr\<close>, and a tuple is the list of its normalized members between
  parentheses.
\<close>

definition normalize_symbol :: "host \<Rightarrow> string \<Rightarrow> string" where
  "normalize_symbol h symbol =
     (if startswith symbol dquote \<and> endswith symbol dquote then butlast (tl symbol)
      else py_repr h symbol)"

definition normalize_for_table :: "host \<Rightarrow> lookahead \<Rightarrow> string" where
  "normalize_for_table h symbol =
     (case symbol of
        Single s \<Rightarrow> normalize_symbol h s
      | Tuple ts \<Rightarrow> ''('' @ join '', '' (map (normalize_symbol h) ts) @ '')'')"

definition spaces :: "nat \<Rightarrow> string" where
  "spaces n = replicate n CHR '' ''"

text \<open>The lines for one cell, for one row and for the whole table.\<close>

definition cell_lines :: "host \<Rightarrow> lookahead \<times> production \<Rightarrow> string list" where
  "cell_lines h entry =
     (case entry of (col_value, lhs, rhs) \<Rightarrow>
        [spaces 12 @ normalize_for_table h col_value @ '': ('',
         spaces 16 @ normalize_symbol h lhs @ '','',
         spaces 16 @ ''['']
        @ map (\<lambda>value. spaces 20 @ normalize_symbol h value @ '','') rhs
        @ [spaces 16 @ '']'',
           spaces 12 @ ''),''])"

definition row_lines :: "host \<Rightarrow> string \<times> row \<Rightarrow> string list" where
  "row_lines h entry =
     (case entry of (row_value, row) \<Rightarrow>
        [spaces 8 @ normalize_symbol h row_value @ '': {'']
        @ concat (map (cell_lines h) row)
        @ [spaces 8 @ ''},''])"




text \<open>
  Example host: the parser gives the grammar \<open>S ::= A B\<close>, \<open>A ::= "a"\<close>, \<open>B ::= "b"\<close> with
  the start symbol \<open>S\<close> for every text, and \<open>repr\<close> puts a name between single quotes.
\<close>

definition sequence_host :: host where
  "sequence_host =
     \<lparr>parse_grammar = (\<lambda>text. (sequence_grammar, ''S'')),
      py_repr = (\<lambda>s. [CHR 0x27] @ s @ [CHR 0x27])\<rparr>"






section \<open>Terminal normalization\<close>

lemma replace_ne_single:
  "replace_ne [c] [] s = filter (\<lambda>x. x \<noteq> c) s"
proof (induction s)
  case Nil
  show ?case by (subst replace_ne.simps) simp
next
  case (Cons a s)
  show ?case
  proof (cases "a = c")
    case True
    then have "replace_ne [c] [] (a # s) = replace_ne [c] [] s"
      by (subst replace_ne.simps) simp
    with True Cons show ?thesis by simp
  next
    case False
    then have "replace_ne [c] [] (a # s) = a # replace_ne [c] [] s"
      by (subst replace_ne.simps) simp
    with False Cons show ?thesis by simp
  qed
qed

lemma normalize_terminal_value_filter:
  "normalize_terminal_value v = filter (\<lambda>x. x \<noteq> backslash) v"
  by (simp add: normalize_terminal_value_def str_replace_def replace_ne_single)

lemma startswith_filter:
  "c \<noteq> d \<Longrightarrow> startswith s c \<Longrightarrow> startswith (filter (\<lambda>x. x \<noteq> d) s) c"
  by (cases s) (auto simp: startswith_def)

lemma endswith_filter:
  "c \<noteq> d \<Longrightarrow> endswith s c \<Longrightarrow> endswith (filter (\<lambda>x. x \<noteq> d) s) c"
  by (cases "rev s") (auto simp: endswith_def rev_filter [symmetric])

lemma sequence_rhs_terminal:
  "(TERMINAL, v) \<in> set children \<Longrightarrow> normalize_terminal_value v \<in> set (sequence_rhs children)"
  by (induction children) auto

text \<open>
  C10.  The terminal stored in the production table for a TERMINAL child with value \<open>v\<close> is
  \<open>v\<close> with every backslash removed and all other characters kept in order (so no backslash
  is left, lone or not), and a value that begins and ends with a double quote still does so
  after normalization.
\<close>

theorem C10_normalize_terminal_value:
  "normalize_terminal_value v = filter (\<lambda>x. x \<noteq> backslash) v
   \<and> backslash \<notin> set (normalize_terminal_value v)
   \<and> ((TERMINAL, v) \<in> set children \<longrightarrow>
        filter (\<lambda>x. x \<noteq> backslash) v \<in> set (sequence_rhs children))
   \<and> (is_term v \<longrightarrow> is_term (normalize_terminal_value v))"
proof -
  have q: "dquote \<noteq> backslash" by (simp add: dquote_def backslash_def)
  have "is_term v \<longrightarrow> is_term (normalize_terminal_value v)"
    using q by (auto simp: is_term_def normalize_terminal_value_filter
        intro: startswith_filter endswith_filter)
  moreover have "(TERMINAL, v) \<in> set children \<longrightarrow>
        filter (\<lambda>x. x \<noteq> backslash) v \<in> set (sequence_rhs children)"
    using sequence_rhs_terminal [of v children]
    by (simp add: normalize_terminal_value_filter)
  ultimately show ?thesis
    by (simp add: normalize_terminal_value_filter)
qed

text \<open>
  The value \<open>"a\"\\"\<close> (a quoted terminal holding an escaped quote and a lone backslash
  before the closing quote) is stored as \<open>"a""\<close>.
\<close>

theorem C10_normalize_terminal_value_witness:
  "(TERMINAL, [dquote, CHR ''a'', backslash, dquote, backslash, dquote])
     \<in> set [(SYMBOL, ''A''), (TERMINAL, [dquote, CHR ''a'', backslash, dquote, backslash, dquote])]
   \<and> is_term [dquote, CHR ''a'', backslash, dquote, backslash, dquote]
   \<and> normalize_terminal_value [dquote, CHR ''a'', backslash, dquote, backslash, dquote]
       = [dquote, CHR ''a'', dquote, dquote]
   \<and> [dquote, CHR ''a'', dquote, dquote]
       \<in> set (sequence_rhs [(SYMBOL, ''A''),
            (TERMINAL, [dquote, CHR ''a'', backslash, dquote, backslash, dquote])])
   \<and> is_term (normalize_terminal_value [dquote, CHR ''a'', backslash, dquote, backslash, dquote])"
proof -
  let ?v = "[dquote, CHR ''a'', backslash, dquote, backslash, dquote]"
  let ?cs = "[(SYMBOL, ''A''), (TERMINAL, ?v)]"
  have h1: "(TERMINAL, ?v) \<in> set ?cs" by simp
  have h2: "is_term ?v" by (simp add: is_term_def startswith_def endswith_def)
  have e: "filter (\<lambda>x. x \<noteq> backslash) ?v = [dquote, CHR ''a'', dquote, dquote]"
    by (simp add: dquote_def backslash_def)
  from C10_normalize_terminal_value [of ?v ?cs] h1 h2 e show ?thesis
    by metis
qed

section \<open>Derivation search: termination\<close>

lemma matches_fuel_sound:
  "matches_fuel n adj queue = Some r \<Longrightarrow> matches_loop adj queue = Some r"
proof (induction n arbitrary: queue)
  case 0
  then show ?case by simp
next
  case (Suc n)
  show ?case
  proof (cases "queue = []")
    case True
    with Suc.prems show ?thesis by (subst matches_loop.simps) simp
  next
    case False
    show ?thesis
    proof (cases "matches_body adj queue")
      case (Inl a)
      with False Suc.prems show ?thesis by (subst matches_loop.simps) simp
    next
      case (Inr q')
      with False Suc.prems have "matches_fuel n adj q' = Some r" by simp
      then have "matches_loop adj q' = Some r" by (rule Suc.IH)
      with False Inr show ?thesis by (subst matches_loop.simps) simp
    qed
  qed
qed

lemma matches_fuel_run:
  "matches_fuel n adj [(rhs, terms)] = Some r \<Longrightarrow> matches adj rhs terms = Some r"
  by (simp add: matches_def matches_fuel_sound)


















lemma leads_nonempty: "leads adj c r \<Longrightarrow> c \<noteq> [] \<and> r \<noteq> []"
  by (induction rule: leads.induct) auto

lemma leads_Nil1 [simp]: "\<not> leads adj [] r"
  using leads_nonempty by blast

lemma leads_Nil2 [simp]: "\<not> leads adj c []"
  using leads_nonempty by blast


























lemma L_nonterm: "is_nonterm ''L''"
  by (simp add: is_nonterm_def is_term_def is_epsilon_def epsilon_def startswith_def dquote_def)





section \<open>Table assembly\<close>

lemma bind_res_Inr:
  "bind_res m f = Some (Inr v) \<longleftrightarrow> (\<exists>x. m = Some (Inr x) \<and> f x = Some (Inr v))"
  by (auto simp: bind_res_def split: option.splits sum.splits)

lemma bind_res_Inl:
  "bind_res m f = Some (Inl e) \<longleftrightarrow>
     m = Some (Inl e) \<or> (\<exists>x. m = Some (Inr x) \<and> f x = Some (Inl e))"
  by (auto simp: bind_res_def split: option.splits sum.splits)

lemma cell_set_cell:
  "set_cell T N t P = Inr T' \<Longrightarrow>
   cell T' N' t' = (if N' = N \<and> t' = t then Some P else cell T N' t')"
  by (auto simp: set_cell_def cell_def update_conv' split: option.splits if_splits)

lemma set_cell_error: "set_cell T N t P = Inl e \<Longrightarrow> e = KeyError N"
  by (auto simp: set_cell_def split: option.splits)

lemma eps_loop_cell:
  "eps_loop ts N P T = Inr T' \<Longrightarrow> cell T N' t' = Some Q \<Longrightarrow> cell T' N' t' = Some Q"
proof (induction ts arbitrary: T)
  case Nil
  then show ?case by simp
next
  case (Cons term2 ts)
  from Cons.prems(1) obtain row where row: "map_of T N = Some row"
    by (auto split: option.splits)
  show ?case
  proof (cases "map_of row term2 = None")
    case True
    with Cons.prems(1) row obtain T1 where
      s: "set_cell T N term2 P = Inr T1" and r: "eps_loop ts N P T1 = Inr T'"
      by (auto split: sum.splits)
    from True row have "cell T N term2 = None" by (simp add: cell_def)
    with Cons.prems(2) have "\<not> (N' = N \<and> t' = term2)" by auto
    with cell_set_cell [OF s, of N' t'] Cons.prems(2) have "cell T1 N' t' = Some Q" by simp
    with Cons.IH [OF r] show ?thesis .
  next
    case False
    with Cons.prems(1) row have "eps_loop ts N P T = Inr T'" by simp
    from Cons.IH [OF this Cons.prems(2)] show ?thesis .
  qed
qed

lemma eps_loop_error: "eps_loop ts N P T = Inl e \<Longrightarrow> e = KeyError N"
proof (induction ts arbitrary: T)
  case Nil
  then show ?case by simp
next
  case (Cons term2 ts)
  then show ?case
    by (auto split: option.splits if_splits sum.splits dest: set_cell_error)
qed

lemma length_one: "length ps = Suc 0 \<Longrightarrow> ps = [hd ps]"
  by (cases ps) auto

lemma ktable_term_unique:
  assumes "ktable_term adj fo N t T = Some (Inr T')"
  shows "\<exists>P. get_production_leading_to_terminal adj N t = Some (Inr [P])"
proof -
  from assms obtain ps where ps: "get_production_leading_to_terminal adj N t = Some (Inr ps)"
    and l: "length ps = 1"
    by (auto simp: ktable_term_def bind_res_Inr split: if_splits)
  from l have "ps = [hd ps]" by (simp add: length_one)
  with ps show ?thesis by metis
qed

lemma ktable_term_recorded_new:
  assumes "ktable_term adj fo N t T = Some (Inr T')" and "t \<noteq> Single epsilon"
  shows "recorded adj T' N t"
proof -
  from assms obtain ps where ps: "get_production_leading_to_terminal adj N t = Some (Inr ps)"
    and l: "length ps = 1" and s: "set_cell T N t (hd ps) = Inr T'"
    by (auto simp: ktable_term_def bind_res_Inr split: if_splits)
  from l have e: "ps = [hd ps]" by (simp add: length_one)
  from cell_set_cell [OF s, of N t] have "cell T' N t = Some (hd ps)" by simp
  with ps e show ?thesis unfolding recorded_def by metis
qed

lemma ktable_term_recorded_keep:
  assumes "ktable_term adj fo N t T = Some (Inr T')" and "recorded adj T N' t'"
  shows "recorded adj T' N' t'"
proof -
  from assms(1) obtain ps where ps: "get_production_leading_to_terminal adj N t = Some (Inr ps)"
    and l: "length ps = 1"
    by (auto simp: ktable_term_def bind_res_Inr split: if_splits)
  from l have e: "ps = [hd ps]" by (simp add: length_one)
  from assms(2) obtain Q where
    q: "get_production_leading_to_terminal adj N' t' = Some (Inr [Q])" and c: "cell T N' t' = Some Q"
    by (auto simp: recorded_def)
  show ?thesis
  proof (cases "t = Single epsilon")
    case True
    with assms(1) ps l obtain ts where "eps_loop ts N (hd ps) T = Inr T'"
      by (auto simp: ktable_term_def bind_res_def split: option.splits)
    from eps_loop_cell [OF this c] q show ?thesis by (auto simp: recorded_def)
  next
    case False
    with assms(1) ps l have s: "set_cell T N t (hd ps) = Inr T'"
      by (auto simp: ktable_term_def bind_res_def)
    show ?thesis
    proof (cases "N' = N \<and> t' = t")
      case True
      with ps e q have "hd ps = Q" by auto
      with cell_set_cell [OF s, of N' t'] True q show ?thesis by (auto simp: recorded_def)
    next
      case False
      with cell_set_cell [OF s, of N' t'] c q show ?thesis by (auto simp: recorded_def)
    qed
  qed
qed

lemma terms_loop_recorded:
  "terms_loop adj fo N ts T = Some (Inr T') \<Longrightarrow>
   (\<forall>t\<in>set ts. (\<exists>P. get_production_leading_to_terminal adj N t = Some (Inr [P]))
       \<and> (t \<noteq> Single epsilon \<longrightarrow> recorded adj T' N t))
   \<and> (\<forall>N' t'. recorded adj T N' t' \<longrightarrow> recorded adj T' N' t')"
proof (induction ts arbitrary: T)
  case Nil
  then show ?case by simp
next
  case (Cons t ts)
  from Cons.prems obtain T1 where
    a: "ktable_term adj fo N t T = Some (Inr T1)" and
    b: "terms_loop adj fo N ts T1 = Some (Inr T')"
    by (auto simp: bind_res_Inr)
  note ih = Cons.IH [OF b]
  from ktable_term_unique [OF a] ktable_term_recorded_new [OF a]
    ktable_term_recorded_keep [OF a] ih
  show ?case by auto
qed

lemma first_loop_recorded:
  "first_loop adj fo first T = Some (Inr T') \<Longrightarrow>
   (\<forall>(N, ts)\<in>set first. \<forall>t\<in>set ts.
       (\<exists>P. get_production_leading_to_terminal adj N t = Some (Inr [P]))
       \<and> (t \<noteq> Single epsilon \<longrightarrow> recorded adj T' N t))
   \<and> (\<forall>N' t'. recorded adj T N' t' \<longrightarrow> recorded adj T' N' t')"
proof (induction first arbitrary: T)
  case Nil
  then show ?case by simp
next
  case (Cons a first)
  obtain N ts where a: "a = (N, ts)" by (cases a)
  from Cons.prems a obtain T1 where
    b: "terms_loop adj fo N ts T = Some (Inr T1)" and
    c: "first_loop adj fo first T1 = Some (Inr T')"
    by (auto simp: bind_res_Inr)
  from terms_loop_recorded [OF b] Cons.IH [OF c] a
  show ?case by auto
qed

lemma expand_error: "expand ps rest remaining queue = Inl e \<Longrightarrow> e = IndexError"
  by (induction ps arbitrary: queue) (auto split: list.splits if_splits)

lemma matches_body_error:
  "matches_body adj queue = Inl (Inl e) \<Longrightarrow> e = IndexError \<or> (\<exists>s. e = KeyError s)"
  by (auto simp: matches_body_def Let_def split: prod.splits if_splits option.splits sum.splits
      dest: expand_error)

lemma matches_loop_error:
  assumes "matches_loop adj queue = Some r"
  shows "r \<noteq> Inl (AmbiguousGrammar N t ps)"
proof (rule matches_loop.raw_induct
    [where P = "\<lambda>adj queue r. r \<noteq> Inl (AmbiguousGrammar N t ps)", OF _ assms])
  fix f :: "adjacency \<Rightarrow> queue \<Rightarrow> (error + matches_result) option"
  fix adj queue r
  assume IH: "\<And>a q y. f a q = Some y \<Longrightarrow> y \<noteq> Inl (AmbiguousGrammar N t ps)"
    and body: "(if queue = [] then Some (Inr RetNone)
       else case matches_body adj queue of Inl r \<Rightarrow> Some r | Inr queue' \<Rightarrow> f adj queue') = Some r"
  show "r \<noteq> Inl (AmbiguousGrammar N t ps)"
  proof (cases "queue = []")
    case True
    with body show ?thesis by auto
  next
    case False
    show ?thesis
    proof (cases "matches_body adj queue")
      case (Inl a)
      with False body have "a = r" by simp
      with Inl matches_body_error [of adj queue] show ?thesis by auto
    next
      case (Inr q')
      with False body have "f adj q' = Some r" by simp
      from IH [OF this] show ?thesis .
    qed
  qed
qed

lemma leading_loop_error:
  "leading_loop adj nonterm remaining rhss = Some (Inl e) \<Longrightarrow> e \<noteq> AmbiguousGrammar N t ps"
proof (induction rhss arbitrary: e)
  case Nil
  then show ?case by simp
next
  case (Cons rhs rhss)
  from Cons.prems have
    "matches adj rhs remaining = Some (Inl e)
     \<or> leading_loop adj nonterm remaining rhss = Some (Inl e)"
    by (auto simp: bind_res_Inl)
  then show ?case
  proof
    assume "matches adj rhs remaining = Some (Inl e)"
    then show ?thesis using matches_loop_error [of adj "[(rhs, remaining)]" "Inl e" N t ps]
      by (auto simp: matches_def)
  next
    assume "leading_loop adj nonterm remaining rhss = Some (Inl e)"
    then show ?thesis by (rule Cons.IH)
  qed
qed

lemma get_production_error:
  "get_production_leading_to_terminal adj nonterm term = Some (Inl e) \<Longrightarrow>
   e \<noteq> AmbiguousGrammar N t ps"
  by (auto simp: get_production_leading_to_terminal_def split: option.splits dest: leading_loop_error)

lemma ktable_term_ambiguous:
  "ktable_term adj fo N t T = Some (Inl (AmbiguousGrammar N' t' ps)) \<longleftrightarrow>
   (N' = N \<and> t' = t \<and> get_production_leading_to_terminal adj N t = Some (Inr ps) \<and> length ps \<noteq> 1)"
proof
  assume a: "ktable_term adj fo N t T = Some (Inl (AmbiguousGrammar N' t' ps))"
  then obtain qs where q: "get_production_leading_to_terminal adj N t = Some (Inr qs)"
    using get_production_error [of adj N t "AmbiguousGrammar N' t' ps" N' t' ps]
    by (auto simp: ktable_term_def bind_res_Inl)
  show "N' = N \<and> t' = t \<and> get_production_leading_to_terminal adj N t = Some (Inr ps) \<and> length ps \<noteq> 1"
  proof (cases "length qs = 1")
    case True
    with a q have
      "(\<exists>ts. eps_loop ts N (hd qs) T = Inl (AmbiguousGrammar N' t' ps))
       \<or> set_cell T N t (hd qs) = Inl (AmbiguousGrammar N' t' ps)"
      by (auto simp: ktable_term_def bind_res_def Let_def split: if_splits option.splits)
    then show ?thesis by (auto dest: eps_loop_error set_cell_error)
  next
    case False
    with a q show ?thesis by (auto simp: ktable_term_def bind_res_def)
  qed
next
  assume "N' = N \<and> t' = t \<and> get_production_leading_to_terminal adj N t = Some (Inr ps) \<and> length ps \<noteq> 1"
  then show "ktable_term adj fo N t T = Some (Inl (AmbiguousGrammar N' t' ps))"
    by (auto simp: ktable_term_def bind_res_def)
qed

lemma terms_loop_ambiguous:
  "terms_loop adj fo N ts T = Some (Inl (AmbiguousGrammar N' t' ps)) \<Longrightarrow>
   N' = N \<and> t' \<in> set ts \<and> get_production_leading_to_terminal adj N t' = Some (Inr ps) \<and> length ps \<noteq> 1"
proof (induction ts arbitrary: T)
  case Nil
  then show ?case by simp
next
  case (Cons t ts)
  from Cons.prems have
    "ktable_term adj fo N t T = Some (Inl (AmbiguousGrammar N' t' ps))
     \<or> (\<exists>T1. terms_loop adj fo N ts T1 = Some (Inl (AmbiguousGrammar N' t' ps)))"
    by (auto simp: bind_res_Inl)
  then show ?case
  proof
    assume "ktable_term adj fo N t T = Some (Inl (AmbiguousGrammar N' t' ps))"
    then show ?thesis by (simp add: ktable_term_ambiguous)
  next
    assume "\<exists>T1. terms_loop adj fo N ts T1 = Some (Inl (AmbiguousGrammar N' t' ps))"
    then obtain T1 where "terms_loop adj fo N ts T1 = Some (Inl (AmbiguousGrammar N' t' ps))" ..
    from Cons.IH [OF this] show ?thesis by simp
  qed
qed

lemma first_loop_ambiguous:
  "first_loop adj fo first T = Some (Inl (AmbiguousGrammar N' t' ps)) \<Longrightarrow>
   (\<exists>ts. (N', ts) \<in> set first \<and> t' \<in> set ts)
   \<and> get_production_leading_to_terminal adj N' t' = Some (Inr ps) \<and> length ps \<noteq> 1"
proof (induction first arbitrary: T)
  case Nil
  then show ?case by simp
next
  case (Cons a first)
  obtain N ts where a: "a = (N, ts)" by (cases a)
  from Cons.prems a have
    "terms_loop adj fo N ts T = Some (Inl (AmbiguousGrammar N' t' ps))
     \<or> (\<exists>T1. first_loop adj fo first T1 = Some (Inl (AmbiguousGrammar N' t' ps)))"
    by (auto simp: bind_res_Inl)
  then show ?case
  proof
    assume "terms_loop adj fo N ts T = Some (Inl (AmbiguousGrammar N' t' ps))"
    from terms_loop_ambiguous [OF this] a show ?thesis by auto
  next
    assume "\<exists>T1. first_loop adj fo first T1 = Some (Inl (AmbiguousGrammar N' t' ps))"
    then obtain T1 where "first_loop adj fo first T1 = Some (Inl (AmbiguousGrammar N' t' ps))" ..
    from Cons.IH [OF this] show ?thesis by auto
  qed
qed

lemma set_update_subset: "set (AList.update k v al) \<subseteq> insert (k, v) (set al)"
  by (induction al) auto

lemma set_cell_wf:
  assumes "set_cell T N t P = Inr T'" and "wf_ktable T"
  shows "wf_ktable T'"
proof -
  from assms(1) obtain row where row: "map_of T N = Some row"
    and T': "T' = AList.update N (AList.update t P row) T"
    by (auto simp: set_cell_def split: option.splits)
  from row have "(N, row) \<in> set T" by (rule map_of_SomeD)
  with assms(2) have "is_dict row" by (auto simp: wf_ktable_def)
  then have r: "is_dict (AList.update t P row)" by (simp add: is_dict_def distinct_update)
  from assms(2) have d: "is_dict T'" by (simp add: T' wf_ktable_def is_dict_def distinct_update)
  have "\<forall>(N, row)\<in>set T'. is_dict row"
    using set_update_subset [of N "AList.update t P row" T] r assms(2)
    by (auto simp: T' wf_ktable_def)
  with d show ?thesis by (simp add: wf_ktable_def)
qed

lemma eps_loop_wf:
  "eps_loop ts N P T = Inr T' \<Longrightarrow> wf_ktable T \<Longrightarrow> wf_ktable T'"
proof (induction ts arbitrary: T)
  case Nil
  then show ?case by simp
next
  case (Cons term2 ts)
  then show ?case
    by (auto split: option.splits if_splits sum.splits dest: set_cell_wf)
qed

lemma ktable_term_wf:
  "ktable_term adj fo N t T = Some (Inr T') \<Longrightarrow> wf_ktable T \<Longrightarrow> wf_ktable T'"
  by (auto simp: ktable_term_def bind_res_Inr Let_def split: if_splits option.splits
      dest: set_cell_wf eps_loop_wf)

lemma terms_loop_wf:
  "terms_loop adj fo N ts T = Some (Inr T') \<Longrightarrow> wf_ktable T \<Longrightarrow> wf_ktable T'"
proof (induction ts arbitrary: T)
  case Nil
  then show ?case by simp
next
  case (Cons t ts)
  from Cons.prems(1) obtain T1 where
    b: "ktable_term adj fo N t T = Some (Inr T1)" and
    c: "terms_loop adj fo N ts T1 = Some (Inr T')"
    by (auto simp: bind_res_Inr)
  from ktable_term_wf [OF b Cons.prems(2)] have "wf_ktable T1" .
  from Cons.IH [OF c this] show ?case .
qed

lemma first_loop_wf:
  "first_loop adj fo first T = Some (Inr T') \<Longrightarrow> wf_ktable T \<Longrightarrow> wf_ktable T'"
proof (induction first arbitrary: T)
  case Nil
  then show ?case by simp
next
  case (Cons a first)
  obtain N ts where a: "a = (N, ts)" by (cases a)
  from Cons.prems(1) a obtain T1 where
    b: "terms_loop adj fo N ts T = Some (Inr T1)" and
    c: "first_loop adj fo first T1 = Some (Inr T')"
    by (auto simp: bind_res_Inr)
  from terms_loop_wf [OF b Cons.prems(2)] have "wf_ktable T1" .
  from Cons.IH [OF c this] show ?case .
qed

lemma fold_update_empty_wf:
  "wf_ktable T \<Longrightarrow> wf_ktable (fold (\<lambda>nonterm t. AList.update nonterm [] t) ns T)"
proof (induction ns arbitrary: T)
  case Nil
  then show ?case by simp
next
  case (Cons n ns)
  have "wf_ktable (AList.update n [] T)"
    using Cons.prems set_update_subset [of n "[]" T]
    by (auto simp: wf_ktable_def is_dict_def distinct_update)
  from Cons.IH [OF this] show ?case by simp
qed

lemma initial_ktable_wf: "wf_ktable (initial_ktable table)"
  unfolding initial_ktable_def
  by (rule fold_update_empty_wf) (simp add: wf_ktable_def is_dict_def)

subsection \<open>The example grammars, run\<close>

lemma np_adj: "adjacency_matrix nullable_pair_grammar =
   [(''S'', [[''A'', ''B'']]), (''A'', [[epsilon]]), (''B'', [[epsilon]])]"
  by code_simp

lemma np_matches: "matches (adjacency_matrix nullable_pair_grammar) [''A'', ''B''] [epsilon] = Some (Inr RetNone)"
  by (rule matches_fuel_run [of 4]) code_simp

lemma np_leading: "get_production_leading_to_terminal (adjacency_matrix nullable_pair_grammar) ''S'' (Single epsilon) = Some (Inr [])"
  unfolding np_adj using np_matches [unfolded np_adj]
  by (simp add: get_production_leading_to_terminal_def remaining_of_def bind_res_def)

lemma nullable_pair_run:
  "generate_ktable nullable_pair_grammar nullable_pair_first nullable_pair_follow 1
     = Some (Inl (AmbiguousGrammar ''S'' (Single epsilon) []))"
  using np_leading
  by (simp add: generate_ktable_def ktable_term_def bind_res_def nullable_pair_first_def)

lemma nullable_adjacency: "adjacency_matrix nullable_grammar = nullable_adj"
  by code_simp

lemma nullable_initial: "initial_ktable nullable_grammar = [(''S'', []), (''A'', [])]"
  by code_simp

lemma na_S: "map_of nullable_adj ''S'' = Some [[''A'', quoted ''a'']]"
  by (simp add: nullable_adj_def)

lemma na_A: "map_of nullable_adj ''A'' = Some [[quoted ''a''], [epsilon]]"
  by (simp add: nullable_adj_def)

lemma nullable_S_a:
  "get_production_leading_to_terminal nullable_adj ''S'' (Single (quoted ''a''))
     = Some (Inr [(''S'', [''A'', quoted ''a''])])"
proof -
  have "matches nullable_adj [''A'', quoted ''a''] [quoted ''a''] = Some (Inr RetTrue)"
    by (rule matches_fuel_run [of 5]) code_simp
  then show ?thesis
    by (simp add: get_production_leading_to_terminal_def na_S remaining_of_def bind_res_def)
qed

lemma nullable_A_eps:
  "get_production_leading_to_terminal nullable_adj ''A'' (Single epsilon)
     = Some (Inr [(''A'', [epsilon])])"
proof -
  have "matches nullable_adj [quoted ''a''] [epsilon] = Some (Inr RetNone)"
    by (rule matches_fuel_run [of 5]) code_simp
  moreover have "matches nullable_adj [epsilon] [epsilon] = Some (Inr RetTrue)"
    by (rule matches_fuel_run [of 5]) code_simp
  ultimately show ?thesis
    by (simp add: get_production_leading_to_terminal_def na_A remaining_of_def bind_res_def)
qed

lemma nullable_A_a:
  "get_production_leading_to_terminal nullable_adj ''A'' (Single (quoted ''a''))
     = Some (Inr [(''A'', [quoted ''a''])])"
proof -
  have "matches nullable_adj [quoted ''a''] [quoted ''a''] = Some (Inr RetTrue)"
    by (rule matches_fuel_run [of 5]) code_simp
  moreover have "matches nullable_adj [epsilon] [quoted ''a''] = Some (Inr RetNone)"
    by (rule matches_fuel_run [of 5]) code_simp
  ultimately show ?thesis
    by (simp add: get_production_leading_to_terminal_def na_A remaining_of_def bind_res_def)
qed

lemma quoted_not_eps: "quoted s \<noteq> epsilon"
  by (simp add: quoted_def epsilon_def dquote_def)

lemma nullable_step_eps:
  "ktable_term nullable_adj nullable_follow ''A'' (Single epsilon) [(''S'', []), (''A'', [])]
     = Some (Inr [(''S'', []), (''A'', [(Single (quoted ''a''), (''A'', [epsilon]))])])"
  by (simp add: ktable_term_def nullable_A_eps bind_res_def nullable_follow_def set_cell_def)

lemma nullable_step_a:
  "ktable_term nullable_adj nullable_follow ''A'' (Single (quoted ''a''))
       [(''S'', []), (''A'', [(Single (quoted ''a''), (''A'', [epsilon]))])]
     = Some (Inr [(''S'', []), (''A'', [(Single (quoted ''a''), (''A'', [quoted ''a'']))])])"
  by (simp add: ktable_term_def nullable_A_a bind_res_def quoted_not_eps set_cell_def)

lemma nullable_step_S:
  "ktable_term nullable_adj nullable_follow ''S'' (Single (quoted ''a'')) [(''S'', []), (''A'', [])]
     = Some (Inr [(''S'', [(Single (quoted ''a''), (''S'', [''A'', quoted ''a'']))]), (''A'', [])])"
  by (simp add: ktable_term_def nullable_S_a bind_res_def quoted_not_eps set_cell_def)

lemma nullable_run:
  "generate_ktable nullable_grammar [(''A'', [Single epsilon, Single (quoted ''a'')])] nullable_follow 1
     = Some (Inr [(''S'', []), (''A'', [(Single (quoted ''a''), (''A'', [quoted ''a'']))])])"
  by (simp add: generate_ktable_def nullable_adjacency nullable_initial bind_res_def
      nullable_step_eps nullable_step_a)

lemma nullable_step_eps2:
  "ktable_term nullable_adj nullable_follow ''A'' (Single epsilon)
      [(''S'', [(Single (quoted ''a''), (''S'', [''A'', quoted ''a'']))]), (''A'', [])]
     = Some (Inr [(''S'', [(Single (quoted ''a''), (''S'', [''A'', quoted ''a'']))]),
                  (''A'', [(Single (quoted ''a''), (''A'', [epsilon]))])])"
  by (simp add: ktable_term_def nullable_A_eps bind_res_def nullable_follow_def set_cell_def)

lemma nullable_step_a2:
  "ktable_term nullable_adj nullable_follow ''A'' (Single (quoted ''a''))
       [(''S'', [(Single (quoted ''a''), (''S'', [''A'', quoted ''a'']))]),
        (''A'', [(Single (quoted ''a''), (''A'', [epsilon]))])]
     = Some (Inr nullable_ktable)"
  by (simp add: ktable_term_def nullable_A_a bind_res_def quoted_not_eps set_cell_def
      nullable_ktable_def)

lemma nullable_full_run:
  "generate_ktable nullable_grammar nullable_first nullable_follow 1 = Some (Inr nullable_ktable)"
  by (simp add: generate_ktable_def nullable_adjacency nullable_initial bind_res_def nullable_first_def
      nullable_step_S nullable_step_eps2 nullable_step_a2)

subsection \<open>Ambiguity and uniqueness\<close>

text \<open>
  C2, counterexample.  For \<open>S ::= A B\<close> with \<open>A\<close> and \<open>B\<close> deriving epsilon only, no production
  of \<open>S\<close> is returned for the lookahead epsilon (the search ends without a match), which is not
  more than one production, and table assembly fails with the ambiguity error all the same.
\<close>

theorem C2_counterexample:
  "get_production_leading_to_terminal (adjacency_matrix nullable_pair_grammar) ''S'' (Single epsilon)
     = Some (Inr [])
   \<and> \<not> 1 < length ([] :: production list)
   \<and> generate_ktable nullable_pair_grammar nullable_pair_first nullable_pair_follow 1
     = Some (Inl (AmbiguousGrammar ''S'' (Single epsilon) []))"
  using np_leading nullable_pair_run by simp

text \<open>
  C2, amended.  The step for a nonterminal \<open>N\<close> and a lookahead \<open>t\<close> fails with the ambiguity
  error, naming \<open>N\<close>, \<open>t\<close> and the productions found, exactly when the number of productions
  returned by \<open>get_production_leading_to_terminal\<close> is not one (none, or more than one).  When
  \<open>generate_ktable\<close> fails with that error, the named pair is a lookahead of FIRST with a
  number of productions other than one; when it returns a table, every pair of FIRST had
  exactly one production, and the table is a dictionary of dictionaries, so that every cell is
  absent or holds exactly one production.
\<close>

theorem C2_table_assembly:
  "(ktable_term adj fo N t T0 = Some (Inl (AmbiguousGrammar N' t' ps)) \<longleftrightarrow>
      N' = N \<and> t' = t \<and> get_production_leading_to_terminal adj N t = Some (Inr ps)
      \<and> length ps \<noteq> 1)
   \<and> (generate_ktable table first fo k = Some (Inl (AmbiguousGrammar N' t' ps)) \<longrightarrow>
      (\<exists>ts. (N', ts) \<in> set first \<and> t' \<in> set ts)
      \<and> get_production_leading_to_terminal (adjacency_matrix table) N' t' = Some (Inr ps)
      \<and> length ps \<noteq> 1)
   \<and> (generate_ktable table first fo k = Some (Inr T) \<longrightarrow>
      (\<forall>(N, ts)\<in>set first. \<forall>t\<in>set ts.
          \<exists>P. get_production_leading_to_terminal (adjacency_matrix table) N t = Some (Inr [P]))
      \<and> wf_ktable T)"
proof -
  have a: "generate_ktable table first fo k = Some (Inl (AmbiguousGrammar N' t' ps)) \<longrightarrow>
      (\<exists>ts. (N', ts) \<in> set first \<and> t' \<in> set ts)
      \<and> get_production_leading_to_terminal (adjacency_matrix table) N' t' = Some (Inr ps)
      \<and> length ps \<noteq> 1"
    unfolding generate_ktable_def by (rule impI) (rule first_loop_ambiguous)
  have b: "generate_ktable table first fo k = Some (Inr T) \<longrightarrow>
      (\<forall>(N, ts)\<in>set first. \<forall>t\<in>set ts.
          \<exists>P. get_production_leading_to_terminal (adjacency_matrix table) N t = Some (Inr [P]))
      \<and> wf_ktable T"
  proof
    assume "generate_ktable table first fo k = Some (Inr T)"
    then have r: "first_loop (adjacency_matrix table) fo first (initial_ktable table) = Some (Inr T)"
      by (simp add: generate_ktable_def)
    from first_loop_wf [OF r initial_ktable_wf] have "wf_ktable T" .
    moreover from first_loop_recorded [OF r]
    have "\<forall>(N, ts)\<in>set first. \<forall>t\<in>set ts.
          \<exists>P. get_production_leading_to_terminal (adjacency_matrix table) N t = Some (Inr [P])"
      by blast
    ultimately show "(\<forall>(N, ts)\<in>set first. \<forall>t\<in>set ts.
          \<exists>P. get_production_leading_to_terminal (adjacency_matrix table) N t = Some (Inr [P]))
      \<and> wf_ktable T" by simp
  qed
  from ktable_term_ambiguous [of adj fo N t T0 N' t' ps] a b show ?thesis by simp
qed

text \<open>
  The theorem at the grammar \<open>S ::= A "a"\<close>, \<open>A ::= "a" | epsilon\<close>, where assembly succeeds,
  and at \<open>S ::= A B\<close>, where it fails.
\<close>

theorem C2_table_assembly_witness:
  "generate_ktable nullable_grammar nullable_first nullable_follow 1 = Some (Inr nullable_ktable)
   \<and> (\<exists>P. get_production_leading_to_terminal (adjacency_matrix nullable_grammar) ''S''
             (Single (quoted ''a'')) = Some (Inr [P]))
   \<and> (\<exists>P. get_production_leading_to_terminal (adjacency_matrix nullable_grammar) ''A''
             (Single epsilon) = Some (Inr [P]))
   \<and> (\<exists>P. get_production_leading_to_terminal (adjacency_matrix nullable_grammar) ''A''
             (Single (quoted ''a'')) = Some (Inr [P]))
   \<and> wf_ktable nullable_ktable
   \<and> generate_ktable nullable_pair_grammar nullable_pair_first nullable_pair_follow 1
       = Some (Inl (AmbiguousGrammar ''S'' (Single epsilon) []))
   \<and> (\<exists>ts. (''S'', ts) \<in> set nullable_pair_first \<and> Single epsilon \<in> set ts)
   \<and> get_production_leading_to_terminal (adjacency_matrix nullable_pair_grammar) ''S'' (Single epsilon)
       = Some (Inr [])
   \<and> length ([] :: production list) \<noteq> 1"
proof -
  from C2_table_assembly
    [where table = nullable_grammar and first = nullable_first and fo = nullable_follow
       and k = 1 and T = nullable_ktable, THEN conjunct2, THEN conjunct2, THEN mp,
     OF nullable_full_run]
  have ok: "(\<forall>(N, ts)\<in>set nullable_first. \<forall>t\<in>set ts.
          \<exists>P. get_production_leading_to_terminal (adjacency_matrix nullable_grammar) N t = Some (Inr [P]))
      \<and> wf_ktable nullable_ktable" .
  from C2_table_assembly
    [where table = nullable_pair_grammar and first = nullable_pair_first
       and fo = nullable_pair_follow and k = 1 and N' = "''S''" and t' = "Single epsilon"
       and ps = "[]", THEN conjunct2, THEN conjunct1, THEN mp, OF nullable_pair_run]
  have amb: "(\<exists>ts. (''S'', ts) \<in> set nullable_pair_first \<and> Single epsilon \<in> set ts)
      \<and> get_production_leading_to_terminal (adjacency_matrix nullable_pair_grammar) ''S'' (Single epsilon)
          = Some (Inr [])
      \<and> length ([] :: production list) \<noteq> 1" .
  from ok have inst:
    "(\<exists>P. get_production_leading_to_terminal (adjacency_matrix nullable_grammar) ''S''
             (Single (quoted ''a'')) = Some (Inr [P]))"
    "(\<exists>P. get_production_leading_to_terminal (adjacency_matrix nullable_grammar) ''A''
             (Single epsilon) = Some (Inr [P]))"
    "(\<exists>P. get_production_leading_to_terminal (adjacency_matrix nullable_grammar) ''A''
             (Single (quoted ''a'')) = Some (Inr [P]))"
    by (simp_all add: nullable_first_def)
  from ok inst amb nullable_full_run nullable_pair_run show ?thesis by blast
qed

subsection \<open>Overwriting\<close>

text \<open>
  C3, counterexample.  For \<open>A ::= "a" | epsilon\<close> followed by \<open>"a"\<close>, the lookahead epsilon of
  FIRST(A) is met first and binds the cell \<open>(A, "a")\<close> to the production \<open>A ::= epsilon\<close>,
  through FOLLOW(A); the lookahead \<open>"a"\<close> of FIRST(A) then records \<open>A ::= "a"\<close> in the same
  cell, replacing a different production.
\<close>

theorem C3_counterexample:
  "ktable_term nullable_adj nullable_follow ''A'' (Single epsilon) [(''S'', []), (''A'', [])]
     = Some (Inr [(''S'', []), (''A'', [(Single (quoted ''a''), (''A'', [epsilon]))])])
   \<and> cell [(''S'', []), (''A'', [(Single (quoted ''a''), (''A'', [epsilon]))])] ''A'' (Single (quoted ''a''))
     = Some (''A'', [epsilon])
   \<and> ktable_term nullable_adj nullable_follow ''A'' (Single (quoted ''a''))
       [(''S'', []), (''A'', [(Single (quoted ''a''), (''A'', [epsilon]))])]
     = Some (Inr [(''S'', []), (''A'', [(Single (quoted ''a''), (''A'', [quoted ''a'']))])])
   \<and> cell [(''S'', []), (''A'', [(Single (quoted ''a''), (''A'', [quoted ''a'']))])] ''A'' (Single (quoted ''a''))
     = Some (''A'', [quoted ''a''])
   \<and> (''A'', [epsilon]) \<noteq> (''A'', [quoted ''a''])
   \<and> generate_ktable nullable_grammar [(''A'', [Single epsilon, Single (quoted ''a'')])] nullable_follow 1
     = Some (Inr [(''S'', []), (''A'', [(Single (quoted ''a''), (''A'', [quoted ''a'']))])])"
  using nullable_step_eps nullable_step_a nullable_run
  by (simp add: cell_def quoted_def epsilon_def dquote_def)

text \<open>
  C3, amended.  A recording for a lookahead other than epsilon is unconditional: the cell
  holds the recorded production afterwards, whatever it held before.  The epsilon branch never
  changes a cell that is bound.  So an entry of FIRST takes precedence over an entry that came
  from FOLLOW, and after a run that returns a table, the cell of every nonterminal \<open>N\<close> and every
  lookahead \<open>t\<close> of FIRST(N) other than epsilon holds the one production returned for \<open>N\<close>
  and \<open>t\<close>.
\<close>

theorem C3_non_epsilon_entries:
  "(set_cell T0 N t P = Inr T1 \<longrightarrow> cell T1 N t = Some P)
   \<and> (eps_loop ts N P T0 = Inr T1 \<and> cell T0 N' t' = Some Q \<longrightarrow> cell T1 N' t' = Some Q)
   \<and> (generate_ktable table first fo k = Some (Inr T) \<and> (N, ts) \<in> set first \<and> t \<in> set ts
        \<and> t \<noteq> Single epsilon \<longrightarrow>
       (\<exists>P. get_production_leading_to_terminal (adjacency_matrix table) N t = Some (Inr [P])
            \<and> cell T N t = Some P))"
proof -
  have a: "set_cell T0 N t P = Inr T1 \<longrightarrow> cell T1 N t = Some P"
    by (auto dest: cell_set_cell [where N' = N and t' = t])
  have b: "eps_loop ts N P T0 = Inr T1 \<and> cell T0 N' t' = Some Q \<longrightarrow> cell T1 N' t' = Some Q"
    by (auto dest: eps_loop_cell)
  have c: "generate_ktable table first fo k = Some (Inr T) \<and> (N, ts) \<in> set first \<and> t \<in> set ts
        \<and> t \<noteq> Single epsilon \<longrightarrow>
       (\<exists>P. get_production_leading_to_terminal (adjacency_matrix table) N t = Some (Inr [P])
            \<and> cell T N t = Some P)"
  proof
    assume h: "generate_ktable table first fo k = Some (Inr T) \<and> (N, ts) \<in> set first \<and> t \<in> set ts
        \<and> t \<noteq> Single epsilon"
    then have "first_loop (adjacency_matrix table) fo first (initial_ktable table) = Some (Inr T)"
      by (simp add: generate_ktable_def)
    from first_loop_recorded [OF this] h have "recorded (adjacency_matrix table) T N t"
      by auto
    then show "\<exists>P. get_production_leading_to_terminal (adjacency_matrix table) N t = Some (Inr [P])
            \<and> cell T N t = Some P"
      by (simp add: recorded_def)
  qed
  from a b c show ?thesis by simp
qed

theorem C3_non_epsilon_entries_witness:
  "generate_ktable nullable_grammar [(''A'', [Single epsilon, Single (quoted ''a'')])] nullable_follow 1
     = Some (Inr [(''S'', []), (''A'', [(Single (quoted ''a''), (''A'', [quoted ''a'']))])])
   \<and> (''A'', [Single epsilon, Single (quoted ''a'')]) \<in> set [(''A'', [Single epsilon, Single (quoted ''a'')])]
   \<and> Single (quoted ''a'') \<in> set [Single epsilon, Single (quoted ''a'')]
   \<and> Single (quoted ''a'') \<noteq> Single epsilon
   \<and> (\<exists>P. get_production_leading_to_terminal (adjacency_matrix nullable_grammar) ''A'' (Single (quoted ''a''))
             = Some (Inr [P])
          \<and> cell [(''S'', []), (''A'', [(Single (quoted ''a''), (''A'', [quoted ''a'']))])] ''A''
              (Single (quoted ''a'')) = Some P)"
proof -
  let ?first = "[(''A'', [Single epsilon, Single (quoted ''a'')])]"
  let ?T = "[(''S'', []), (''A'', [(Single (quoted ''a''), (''A'', [quoted ''a'']))])]"
  have h: "generate_ktable nullable_grammar ?first nullable_follow 1 = Some (Inr ?T)
     \<and> (''A'', [Single epsilon, Single (quoted ''a'')]) \<in> set ?first
     \<and> Single (quoted ''a'') \<in> set [Single epsilon, Single (quoted ''a'')]
     \<and> Single (quoted ''a'') \<noteq> Single epsilon"
    using nullable_run by (simp add: quoted_not_eps)
  from C3_non_epsilon_entries
    [where table = nullable_grammar and first = ?first and fo = nullable_follow and k = 1
       and T = ?T and N = "''A''" and ts = "[Single epsilon, Single (quoted ''a'')]"
       and t = "Single (quoted ''a'')", THEN conjunct2, THEN conjunct2, THEN mp, OF h] h
  show ?thesis by blast
qed

section \<open>FIRST: the aggregated sets\<close>

lemma set_foldl_union:
  "set (foldl List.union acc xs) = set acc \<union> \<Union> (set ` set xs)"
  by (induction xs arbitrary: acc) auto

lemma set_reduce_union: "set (reduce_union yielded) = \<Union> (set ` set yielded)"
  by (simp add: reduce_union_def set_foldl_union)

lemma set_add_sequences:
  "set (add_sequences env sps s) = set s \<union> (\<lambda>sp. first_entry (normalized env sp)) ` set sps"
  by (induction sps arbitrary: s) auto

lemma map_of_kfirst_round:
  "map_of (kfirst_round env i F) N =
     map_option (add_sequences env (reduce_union (kfirst_gen env N i True))) (map_of F N)"
  unfolding kfirst_round_def by (induction F) auto

lemma map_of_fold_update_empty:
  "map_of (fold (\<lambda>x F. AList.update x [] F) xs F0) N =
     (if N \<in> set xs then Some [] else map_of F0 N)"
  by (induction xs arbitrary: F0) (auto simp: update_conv')

lemma map_of_initial_sets:
  "map_of (initial_sets table) N = (if N \<in> fst ` set table then Some [] else None)"
  by (simp add: initial_sets_def map_of_fold_update_empty)

lemma map_of_fold_rounds:
  "map_of F N = Some s \<Longrightarrow>
   \<exists>s'. map_of (fold (kfirst_round env) is F) N = Some s'
      \<and> set s' = set s \<union>
          {first_entry (normalized env sp) | sp i fs.
             i \<in> set is \<and> fs \<in> set (kfirst_gen env N i True) \<and> sp \<in> set fs}"
proof (induction "is" arbitrary: F s)
  case Nil
  then show ?case by simp
next
  case (Cons i "is")
  let ?s1 = "add_sequences env (reduce_union (kfirst_gen env N i True)) s"
  from Cons.prems have "map_of (kfirst_round env i F) N = Some ?s1"
    by (simp add: map_of_kfirst_round)
  from Cons.IH [OF this] obtain s' where
    a: "map_of (fold (kfirst_round env) is (kfirst_round env i F)) N = Some s'" and
    b: "set s' = set ?s1 \<union>
          {first_entry (normalized env sp) | sp j fs.
             j \<in> set is \<and> fs \<in> set (kfirst_gen env N j True) \<and> sp \<in> set fs}"
    by blast
  have "set ?s1 = set s \<union>
      {first_entry (normalized env sp) | sp fs. fs \<in> set (kfirst_gen env N i True) \<and> sp \<in> set fs}"
    by (auto simp: set_add_sequences set_reduce_union)
  with b have "set s' = set s \<union>
          {first_entry (normalized env sp) | sp j fs.
             j \<in> set (i # is) \<and> fs \<in> set (kfirst_gen env N j True) \<and> sp \<in> set fs}"
    by auto
  with a show ?case by auto
qed

text \<open>
  C9.  For every nonterminal \<open>N\<close> of the grammar, the set \<open>kfirst(k)[N]\<close> holds exactly the
  elements made from the normalized members of the FirstSets that \<open>_kfirst(N, i)\<close> yields for
  \<open>i\<close> from \<open>1\<close> to \<open>k\<close>; the element for a normalized sequence of length one is its bare
  string, for a sequence of length two or more the tuple, and for the empty sequence the string
  epsilon.
\<close>

theorem C9_kfirst_elements:
  "(N \<in> fst ` set table \<longrightarrow>
      (\<exists>s. map_of (kfirst env table k) N = Some s
         \<and> set s = {first_entry (normalized env sp) | sp i fs.
               1 \<le> i \<and> i \<le> k \<and> fs \<in> set (kfirst_gen env N i True) \<and> sp \<in> set fs}))
   \<and> (length n = 1 \<longrightarrow> first_entry n = Single (n ! 0))
   \<and> (2 \<le> length n \<longrightarrow> first_entry n = Tuple n)
   \<and> (n = [] \<longrightarrow> first_entry n = Single epsilon)"
proof -
  have "N \<in> fst ` set table \<longrightarrow>
      (\<exists>s. map_of (kfirst env table k) N = Some s
         \<and> set s = {first_entry (normalized env sp) | sp i fs.
               1 \<le> i \<and> i \<le> k \<and> fs \<in> set (kfirst_gen env N i True) \<and> sp \<in> set fs})"
  proof
    assume "N \<in> fst ` set table"
    then have "map_of (initial_sets table) N = Some ([] :: lookahead list)"
      by (simp add: map_of_initial_sets)
    from map_of_fold_rounds [OF this, of env "[1..<k + 1]"] obtain s where
      a: "map_of (fold (kfirst_round env) [1..<k + 1] (initial_sets table)) N = Some s" and
      b: "set s = {first_entry (normalized env sp) | sp i fs.
               i \<in> set [1..<k + 1] \<and> fs \<in> set (kfirst_gen env N i True) \<and> sp \<in> set fs}"
      by auto
    have c: "\<And>i. i \<in> set [1..<k + 1] \<longleftrightarrow> 1 \<le> i \<and> i \<le> k" by auto
    from b have "set s = {first_entry (normalized env sp) | sp i fs.
               1 \<le> i \<and> i \<le> k \<and> fs \<in> set (kfirst_gen env N i True) \<and> sp \<in> set fs}"
      by (simp only: c conj_assoc)
    with a show "\<exists>s. map_of (kfirst env table k) N = Some s
         \<and> set s = {first_entry (normalized env sp) | sp i fs.
               1 \<le> i \<and> i \<le> k \<and> fs \<in> set (kfirst_gen env N i True) \<and> sp \<in> set fs}"
      unfolding kfirst_def by blast
  qed
  moreover have "length n = 1 \<longrightarrow> first_entry n = Single (n ! 0)"
    by (simp add: first_entry_def)
  moreover have "2 \<le> length n \<longrightarrow> first_entry n = Tuple n"
    by (auto simp: first_entry_def)
  moreover have "n = [] \<longrightarrow> first_entry n = Single epsilon"
    by (simp add: first_entry_def)
  ultimately show ?thesis by blast
qed

text \<open>
  The theorem at \<open>S ::= A "a"\<close>, \<open>A ::= "a" | epsilon\<close> and \<open>k = 2\<close>: the set of \<open>A\<close> holds
  \<open>"a"\<close> and epsilon, the set of \<open>S\<close> holds \<open>"a"\<close> and the tuple \<open>("a", "a")\<close>.
\<close>

theorem C9_kfirst_elements_witness:
  "''A'' \<in> fst ` set nullable_grammar
   \<and> map_of (kfirst nullable_env nullable_grammar 2) ''A''
        = Some [Single epsilon, Single (quoted ''a'')]
   \<and> set [Single epsilon, Single (quoted ''a'')]
        = {first_entry (normalized nullable_env sp) | sp i fs.
             1 \<le> i \<and> i \<le> 2 \<and> fs \<in> set (kfirst_gen nullable_env ''A'' i True) \<and> sp \<in> set fs}
   \<and> map_of (kfirst nullable_env nullable_grammar 2) ''S''
        = Some [Tuple [quoted ''a'', quoted ''a''], Single (quoted ''a'')]
   \<and> first_entry [quoted ''a''] = Single (quoted ''a'')
   \<and> first_entry [quoted ''a'', quoted ''a''] = Tuple [quoted ''a'', quoted ''a'']
   \<and> first_entry [] = Single epsilon"
proof -
  have run: "kfirst nullable_env nullable_grammar 2 =
     [(''S'', [Tuple [quoted ''a'', quoted ''a''], Single (quoted ''a'')]),
      (''A'', [Single epsilon, Single (quoted ''a'')])]"
    by code_simp
  have mem: "''A'' \<in> fst ` set nullable_grammar"
    by (simp add: nullable_grammar_def)
  from C9_kfirst_elements [of "''A''" nullable_grammar nullable_env 2 "[quoted ''a'']"] mem run
  have a: "set [Single epsilon, Single (quoted ''a'')]
        = {first_entry (normalized nullable_env sp) | sp i fs.
             1 \<le> i \<and> i \<le> 2 \<and> fs \<in> set (kfirst_gen nullable_env ''A'' i True) \<and> sp \<in> set fs}"
    and b: "first_entry [quoted ''a''] = Single (quoted ''a'')"
    by simp_all
  from C9_kfirst_elements [of "''A''" nullable_grammar nullable_env 2 "[quoted ''a'', quoted ''a'']"]
  have c: "first_entry [quoted ''a'', quoted ''a''] = Tuple [quoted ''a'', quoted ''a'']"
    by simp
  from C9_kfirst_elements [of "''A''" nullable_grammar nullable_env 2 "[]"]
  have d: "first_entry [] = Single epsilon"
    by simp
  from mem run a b c d show ?thesis by simp
qed

section \<open>FIRST: the lengths of the yielded sequences\<close>


















section \<open>FOLLOW: permutations and iteration bounds\<close>

lemma resolve_levels_error:
  "resolve_levels env rhs base_index ln af i ns = Inl e \<Longrightarrow> e = IndexError"
  by (induction ns arbitrary: i) (auto simp: Let_def split: if_splits sum.splits option.splits)

lemma kfollow_resolve_permutation_error:
  "kfollow_resolve_permutation env production base_index perm af = Inl e \<Longrightarrow>
   e = IndexError \<or> e = AssertionError"
  by (auto simp: kfollow_resolve_permutation_def Let_def
      split: if_splits sum.splits option.splits dest: resolve_levels_error)

lemma permutations_body_error:
  "permutations_body env production base_index k queue = Inl e \<Longrightarrow>
   e = IndexError \<or> e = AssertionError"
  by (auto simp: permutations_body_def Let_def split: if_splits sum.splits
      dest: kfollow_resolve_permutation_error)

lemma permutations_loop_guard:
  "permutations_loop env production base_index k guard queue = (out, g, q) \<Longrightarrow>
   g \<le> guard
   \<and> (out = Inl ReachedMaxIteration \<longrightarrow> g = 0 \<and> q \<noteq> [])
   \<and> ((\<exists>ys. out = Inr ys) \<longleftrightarrow> q = [])"
proof (induction guard arbitrary: queue out g q)
  case 0
  then show ?case by (auto split: if_splits)
next
  case (Suc guard)
  show ?case
  proof (cases "queue = []")
    case True
    with Suc.prems show ?thesis by auto
  next
    case False
    show ?thesis
    proof (cases "permutations_body env production base_index k queue")
      case (Inl e)
      with False Suc.prems have "out = Inl e" "g = guard" "q = queue" by auto
      with False permutations_body_error [OF Inl] show ?thesis by auto
    next
      case (Inr r)
      obtain yielded queue' where r: "r = (yielded, queue')" by (cases r)
      obtain out' g' q' where
        l: "permutations_loop env production base_index k guard queue' = (out', g', q')"
        by (cases "permutations_loop env production base_index k guard queue'")
      note ih = Suc.IH [OF l]
      from False Inr r l Suc.prems have
        "g = g'" "q = q'" "(out = Inl ReachedMaxIteration) = (out' = Inl ReachedMaxIteration)"
        "(\<exists>ys. out = Inr ys) = (\<exists>ys. out' = Inr ys)"
        by (auto split: sum.splits)
      with ih show ?thesis by auto
    qed
  qed
qed

lemma permutations_loop_more_guard:
  "permutations_loop env production base_index k guard queue = (Inr ys, g, q) \<Longrightarrow>
   permutations_loop env production base_index k (guard + d) queue = (Inr ys, g + d, q)"
proof (induction guard arbitrary: queue ys g q)
  case 0
  then show ?case by (cases d) (auto split: if_splits)
next
  case (Suc guard)
  show ?case
  proof (cases "queue = []")
    case True
    with Suc.prems show ?thesis by auto
  next
    case False
    from False Suc.prems obtain yielded queue' where
      b: "permutations_body env production base_index k queue = Inr (yielded, queue')"
      by (auto split: sum.splits)
    obtain out' g' q' where
      l: "permutations_loop env production base_index k guard queue' = (out', g', q')"
      by (cases "permutations_loop env production base_index k guard queue'")
    from False b l Suc.prems obtain later where
      o: "out' = Inr later" "ys = yielded @ later" "g = g'" "q = q'"
      by (auto split: sum.splits)
    from Suc.IH [of queue' later g' q'] l o
    have "permutations_loop env production base_index k (guard + d) queue' = (Inr later, g' + d, q')"
      by simp
    with False b o show ?thesis by simp
  qed
qed

lemma fixpoint_followset_error:
  "fixpoint_followset env F a b = Inl e \<Longrightarrow> \<exists>s. e = KeyError s"
  by (auto simp: fixpoint_followset_def Let_def split: if_splits option.splits)

lemma followsets_loop_error:
  "followsets_loop env F a bs = Inl e \<Longrightarrow> \<exists>s. e = KeyError s"
  by (induction bs arbitrary: F) (auto split: sum.splits dest: fixpoint_followset_error)

lemma values_loop_error:
  "values_loop env F chg as = Inl e \<Longrightarrow> \<exists>s. e = KeyError s"
  by (induction as arbitrary: F chg) (auto split: sum.splits dest: followsets_loop_error)

lemma fixpoint_pass_error: "fixpoint_pass env F = Inl e \<Longrightarrow> \<exists>s. e = KeyError s"
  unfolding fixpoint_pass_def by (rule values_loop_error)

lemma fixpoint_loop_guard:
  "fixpoint_loop env guard F = (out, g, chg) \<Longrightarrow>
   g \<le> guard
   \<and> (out = Inl ReachedIterationLimit \<longrightarrow> g = 0 \<and> chg)
   \<and> ((\<exists>F'. out = Inr F') \<longleftrightarrow> \<not> chg)"
proof (induction guard arbitrary: F out g chg)
  case 0
  then show ?case by auto
next
  case (Suc guard)
  show ?case
  proof (cases "fixpoint_pass env F")
    case (Inl e)
    with Suc.prems have "out = Inl e" "g = guard" "chg" by auto
    with fixpoint_pass_error [OF Inl] show ?thesis by auto
  next
    case (Inr r)
    obtain F' c where r: "r = (F', c)" by (cases r)
    show ?thesis
    proof (cases c)
      case True
      with Inr r Suc.prems have "fixpoint_loop env guard F' = (out, g, chg)" by simp
      from Suc.IH [OF this] show ?thesis by auto
    next
      case False
      with Inr r Suc.prems show ?thesis by auto
    qed
  qed
qed

lemma fixpoint_loop_more_guard:
  "fixpoint_loop env guard F = (Inr F', g, chg) \<Longrightarrow>
   fixpoint_loop env (guard + d) F = (Inr F', g + d, chg)"
proof (induction guard arbitrary: F)
  case 0
  then show ?case by simp
next
  case (Suc guard)
  then show ?case by (auto split: sum.splits prod.splits if_splits)
qed

lemma last_nonzero_iff:
  assumes "i < length p"
  shows "int i = last_nonzero p \<longleftrightarrow> last_assigned p i"
proof
  assume ln: "int i = last_nonzero p"
  let ?d = "dropWhile (\<lambda>n. n = 0) (rev p)"
  from ln have "0 < length ?d" unfolding last_nonzero_def by linarith
  then have "?d \<noteq> []" by auto
  then obtain x d' where d: "?d = x # d'" by (metis list.exhaust)
  with ln have i: "i = length d'" by (simp add: last_nonzero_def)
  from d have x: "x \<noteq> 0" using hd_dropWhile [of "\<lambda>n. n = 0" "rev p"] by auto
  have "rev p = takeWhile (\<lambda>n. n = 0) (rev p) @ x # d'"
    using d takeWhile_dropWhile_id [of "\<lambda>n. n = 0" "rev p"] by simp
  then have "p = rev d' @ x # rev (takeWhile (\<lambda>n. n = 0) (rev p))"
    by (metis rev_append rev.simps(2) rev_rev_ident append_assoc append_Cons append_Nil)
  then obtain z where p: "p = rev d' @ x # z" and z: "z = rev (takeWhile (\<lambda>n. n = 0) (rev p))"
    by blast
  from z have "\<forall>n\<in>set z. n = 0" by (auto dest: set_takeWhileD)
  moreover from p i have "p ! i = x" by (metis length_rev nth_append_length)
  moreover from p i have "drop (Suc i) p = z" by (metis append.simps(2) append_Nil append_eq_conv_conj drop_Suc_Cons drop0 length_rev drop_append append_assoc  self_append_conv2 length_append_singleton append_Cons append_take_drop_id)
  ultimately show "last_assigned p i" using x by (simp add: last_assigned_def)
next
  assume la: "last_assigned p i"
  from assms have p: "p = take i p @ p ! i # drop (Suc i) p" by (simp add: id_take_nth_drop)
  have "rev p = rev (drop (Suc i) p) @ p ! i # rev (take i p)"
    by (subst p) simp
  moreover from la have "\<forall>n\<in>set (rev (drop (Suc i) p)). n = 0" by (simp add: last_assigned_def)
  moreover from la have "p ! i \<noteq> 0" by (simp add: last_assigned_def)
  ultimately have "dropWhile (\<lambda>n. n = 0) (rev p) = p ! i # rev (take i p)"
    by (simp add: dropWhile_append3)
  with assms show "int i = last_nonzero p" by (simp add: last_nonzero_def)
qed


lemma resolve_levels_eq:
  assumes fit: "base_index + length p \<le> length rhs"
  shows "i \<le> length p \<Longrightarrow>
     resolve_levels env rhs base_index (last_nonzero p) af i (drop i p) =
       Inr (if [] \<in> set (map (position_derivations env rhs base_index p af) [i..<length p])
            then None
            else Some (map (position_derivations env rhs base_index p af) [i..<length p]))"
proof (induction "length p - i" arbitrary: i)
  case 0
  then have "i = length p" by simp
  then show ?case by simp
next
  case (Suc n)
  then have i: "i < length p" by simp
  then have d: "drop i p = p ! i # drop (Suc i) p" by (simp add: Cons_nth_drop_Suc)
  from i have u: "[i..<length p] = i # [Suc i..<length p]" by (simp add: upt_conv_Cons)
  from i fit have ir: "\<not> length rhs \<le> i + base_index" by simp
  have pd: "(if int i = last_nonzero p \<and> \<not> is_term (rhs ! (i + base_index)) \<and> af
             then first_pull env (rhs ! (i + base_index)) (p ! i)
             else get_exact env (rhs ! (i + base_index)) (p ! i))
        = position_derivations env rhs base_index p af i"
    using last_nonzero_iff [OF i] by (auto simp: position_derivations_def Let_def)
  from Suc.hyps(2) i have n: "n = length p - Suc i" by simp
  from i have "Suc i \<le> length p" by simp
  note ih = Suc.hyps(1) [OF n this]
  show ?case
  proof (cases "position_derivations env rhs base_index p af i = []")
    case True
    then show ?thesis
      unfolding d u by (simp add: ir pd Let_def)
  next
    case False
    then show ?thesis
      unfolding d u by (simp add: ir pd Let_def ih)
  qed
qed

lemma kfollow_resolve_permutation_eq:
  assumes "base_index < length rhs" and "base_index + length p \<le> length rhs"
  shows "kfollow_resolve_permutation env (L, rhs) base_index p af
     = Inr (derivations env rhs base_index p af)"
  using resolve_levels_eq [OF assms(2), of 0 env af] assms(1)
  by (simp add: kfollow_resolve_permutation_def derivations_def Let_def)

lemma visits_from_pos: "1 \<le> visits_from m k p"
  by (subst visits_from.simps) simp

lemma walk_snoc: "walk m k (q @ [p]) = tuples_from m k p @ walk m k q"
  by (simp add: walk_def)

lemma total_visits_snoc: "total_visits m k (q @ [p]) = total_visits m k q + visits_from m k p"
  by (simp add: total_visits_def)

lemma walk_append: "walk m k (q @ c) = walk m k c @ walk m k q"
  by (simp add: walk_def)

lemma total_visits_append: "total_visits m k (q @ c) = total_visits m k q + total_visits m k c"
  by (simp add: total_visits_def)

lemma tuples_from_leaf: "sum_list p = k \<or> m \<le> length p \<Longrightarrow> tuples_from m k p = [p]"
  by (subst tuples_from.simps) simp

lemma visits_from_leaf: "sum_list p = k \<or> m \<le> length p \<Longrightarrow> visits_from m k p = 1"
  by (subst visits_from.simps) simp

lemma tuples_from_inner:
  "\<not> (sum_list p = k \<or> m \<le> length p) \<Longrightarrow>
   tuples_from m k p = concat (map (\<lambda>i. tuples_from m k (p @ [i])) (rev [0..<k - sum_list p + 1]))"
  by (subst tuples_from.simps) simp

lemma visits_from_inner:
  "\<not> (sum_list p = k \<or> m \<le> length p) \<Longrightarrow>
   visits_from m k p = 1 + sum_list (map (\<lambda>i. visits_from m k (p @ [i])) [0..<k - sum_list p + 1])"
  by (subst visits_from.simps) simp

lemma walk_children:
  "\<not> (sum_list p = k \<or> m \<le> length p) \<Longrightarrow>
   walk m k (map (\<lambda>i. p @ [i]) [0..<k - sum_list p + 1]) = tuples_from m k p"
proof -
  assume h: "\<not> (sum_list p = k \<or> m \<le> length p)"
  show ?thesis unfolding tuples_from_inner [OF h] walk_def rev_map map_map comp_def ..
qed

lemma visits_children:
  "\<not> (sum_list p = k \<or> m \<le> length p) \<Longrightarrow>
   1 + total_visits m k (map (\<lambda>i. p @ [i]) [0..<k - sum_list p + 1]) = visits_from m k p"
proof -
  assume h: "\<not> (sum_list p = k \<or> m \<le> length p)"
  show ?thesis unfolding visits_from_inner [OF h] total_visits_def map_map comp_def ..
qed

lemma permutations_body_eq:
  assumes b: "base_index < length rhs" and f: "fits (length rhs - base_index) k p"
  shows "permutations_body env (L, rhs) base_index k (q @ [p]) =
     (if sum_list p = k \<or> length rhs - base_index \<le> length p
      then Inr ([classified env (L, rhs) base_index k p], q)
      else Inr ([], q @ map (\<lambda>i. p @ [i]) [0..<k - sum_list p + 1]))"
proof -
  from f b have fit: "base_index + length p \<le> length rhs" by (auto simp: fits_def)
  note r = kfollow_resolve_permutation_eq [OF b fit, of env L]
  have a: "(int (length rhs) - int base_index \<le> int (length p)) = (length rhs - base_index \<le> length p)"
    using b by linarith
  from f have "nat (int k - int (sum_list p) + 1) = k - sum_list p + 1"
    by (simp add: fits_def) linarith
  then show ?thesis
    by (simp add: permutations_body_def Let_def r a classified_def)
qed

lemma permutations_loop_eq:
  assumes b: "base_index < length rhs"
  shows "\<forall>p\<in>set q. fits (length rhs - base_index) k p \<Longrightarrow>
     fst (permutations_loop env (L, rhs) base_index k g q) =
       (if total_visits (length rhs - base_index) k q \<le> g
        then Inr (map (classified env (L, rhs) base_index k) (walk (length rhs - base_index) k q))
        else Inl ReachedMaxIteration)"
proof (induction g arbitrary: q)
  case 0
  show ?case
  proof (cases "q = []")
    case True
    then show ?thesis by (simp add: walk_def total_visits_def)
  next
    case False
    then obtain q0 p where q: "q = q0 @ [p]" by (metis rev_exhaust)
    have "1 \<le> total_visits (length rhs - base_index) k q"
      unfolding q total_visits_snoc using visits_from_pos [of "length rhs - base_index" k p] by simp
    with False show ?thesis by simp
  qed
next
  case (Suc g)
  let ?m = "length rhs - base_index"
  show ?case
  proof (cases "q = []")
    case True
    then show ?thesis by (simp add: walk_def total_visits_def)
  next
    case False
    then obtain q0 p where q: "q = q0 @ [p]" by (metis rev_exhaust)
    from Suc.prems q have fp: "fits ?m k p" and fq: "\<forall>p\<in>set q0. fits ?m k p" by auto
    note body = permutations_body_eq [OF b fp, of env L q0]
    show ?thesis
    proof (cases "sum_list p = k \<or> ?m \<le> length p")
      case True
      then have t: "tuples_from ?m k p = [p]" "visits_from ?m k p = 1"
        by (simp_all add: tuples_from_leaf visits_from_leaf)
      from True body have be: "permutations_body env (L, rhs) base_index k q
          = Inr ([classified env (L, rhs) base_index k p], q0)" by (simp add: q)
      note ih = Suc.IH [OF fq]
      obtain out g' q' where l: "permutations_loop env (L, rhs) base_index k g q0 = (out, g', q')"
        by (cases "permutations_loop env (L, rhs) base_index k g q0")
      with ih have out: "out = (if total_visits ?m k q0 \<le> g
        then Inr (map (classified env (L, rhs) base_index k) (walk ?m k q0))
        else Inl ReachedMaxIteration)" by simp
      from False be l have "fst (permutations_loop env (L, rhs) base_index k (Suc g) q) =
         (case out of Inl e \<Rightarrow> Inl e
          | Inr later \<Rightarrow> Inr (classified env (L, rhs) base_index k p # later))"
        by (simp split: sum.splits)
      with out show ?thesis
        by (simp add: q walk_snoc total_visits_snoc t)
    next
      case nl: False
      let ?c = "map (\<lambda>i. p @ [i]) [0..<k - sum_list p + 1]"
      from nl body have be: "permutations_body env (L, rhs) base_index k q = Inr ([], q0 @ ?c)"
        by (simp add: q)
      have fc: "\<forall>p\<in>set (q0 @ ?c). fits ?m k p"
        using fq fp nl by (auto simp: fits_def)
      note ih = Suc.IH [OF fc]
      obtain out g' q' where l: "permutations_loop env (L, rhs) base_index k g (q0 @ ?c) = (out, g', q')"
        by (cases "permutations_loop env (L, rhs) base_index k g (q0 @ ?c)")
      with ih have out: "out = (if total_visits ?m k (q0 @ ?c) \<le> g
        then Inr (map (classified env (L, rhs) base_index k) (walk ?m k (q0 @ ?c)))
        else Inl ReachedMaxIteration)" by simp
      from False be l have "fst (permutations_loop env (L, rhs) base_index k (Suc g) q) = out"
        by (simp split: sum.splits)
      moreover have "walk ?m k (q0 @ ?c) = tuples_from ?m k p @ walk ?m k q0"
        by (simp only: walk_append walk_children [OF nl])
      moreover have "Suc (total_visits ?m k (q0 @ ?c)) = total_visits ?m k q0 + visits_from ?m k p"
        unfolding total_visits_append using visits_children [OF nl] by linarith
      ultimately show ?thesis using out
        by (simp add: q walk_snoc total_visits_snoc)
    qed
  qed
qed


lemma kfollow_permutations_eq:
  assumes b: "base_index < length rhs"
  shows "kfollow_permutations env (L, rhs) base_index k =
     (if visits (length rhs - base_index) k \<le> 500
      then Inr (map (classified env (L, rhs) base_index k) (tuples (length rhs - base_index) k))
      else Inl ReachedMaxIteration)"
proof -
  let ?q = "map (\<lambda>i. [i]) [0..<k + 1]"
  from b have "\<forall>p\<in>set ?q. fits (length rhs - base_index) k p" by (auto simp: fits_def)
  from permutations_loop_eq [OF b this, of env L 500]
  have "fst (permutations_loop env (L, rhs) base_index k 500 ?q) =
       (if total_visits (length rhs - base_index) k ?q \<le> 500
        then Inr (map (classified env (L, rhs) base_index k) (walk (length rhs - base_index) k ?q))
        else Inl ReachedMaxIteration)" .
  moreover have "walk (length rhs - base_index) k ?q = tuples (length rhs - base_index) k"
    by (simp only: walk_def tuples_def rev_map map_map comp_def)
  moreover have "total_visits (length rhs - base_index) k ?q = visits (length rhs - base_index) k"
    by (simp only: total_visits_def visits_def map_map comp_def)
  ultimately show ?thesis using b
    by (simp only: kfollow_permutations_def kfollow_permutations_run_def snd_conv) simp
qed

lemma in_rev_upt: "i \<in> set (rev [0..<n + 1]) \<longleftrightarrow> i \<le> n"
  by (simp only: set_rev set_upt) auto

lemma in_concat_map: "t \<in> set (concat (map f xs)) \<longleftrightarrow> (\<exists>x\<in>set xs. t \<in> set (f x))"
  by auto

lemma tuples_from_fits:
  "fits m k p \<Longrightarrow> t \<in> set (tuples_from m k p) \<Longrightarrow>
   fits m k t \<and> (sum_list t = k \<or> (sum_list t < k \<and> length t = m))"
proof (induction m k p rule: tuples_from.induct)
  case (1 m k p)
  show ?case
  proof (cases "sum_list p = k \<or> m \<le> length p")
    case True
    with "1.prems" have "t = p" by (simp add: tuples_from_leaf)
    with True "1.prems"(1) show ?thesis by (auto simp: fits_def)
  next
    case False
    from "1.prems"(2) obtain i where i: "i \<in> set (rev [0..<k - sum_list p + 1])"
      and t: "t \<in> set (tuples_from m k (p @ [i]))"
      unfolding tuples_from_inner [OF False] in_concat_map by blast
    from i have "i \<le> k - sum_list p" by (simp only: in_rev_upt)
    with False "1.prems"(1) have "fits m k (p @ [i])" by (auto simp: fits_def)
    from "1.IH" [OF False i this t] show ?thesis .
  qed
qed

lemma sum_list_take_le: "sum_list (take n (t :: nat list)) \<le> sum_list t"
proof -
  have "sum_list t = sum_list (take n t) + sum_list (drop n t)"
    by (metis append_take_drop_id sum_list_append)
  then show ?thesis by simp
qed

lemma tuples_from_cover:
  "fits m k p \<Longrightarrow> length t = m \<Longrightarrow> sum_list t \<le> k \<Longrightarrow> take (length p) t = p \<Longrightarrow>
   \<exists>n. length p \<le> n \<and> take n t \<in> set (tuples_from m k p)"
proof (induction m k p rule: tuples_from.induct)
  case (1 m k p)
  show ?case
  proof (cases "sum_list p = k \<or> m \<le> length p")
    case True
    with "1.prems"(4) show ?thesis by (intro exI [of _ "length p"]) (simp add: tuples_from_leaf)
  next
    case False
    with "1.prems" have l: "length p < length t" by (simp add: fits_def)
    let ?i = "t ! length p"
    from l "1.prems"(4) have tk: "take (Suc (length p)) t = p @ [?i]"
      by (simp add: take_Suc_conv_app_nth)
    have "sum_list (take (Suc (length p)) t) \<le> sum_list t" by (rule sum_list_take_le)
    with tk "1.prems"(3) have s: "sum_list p + ?i \<le> k" by simp
    then have "?i \<le> k - sum_list p" by simp
    then have i: "?i \<in> set (rev [0..<k - sum_list p + 1])" by (simp only: in_rev_upt)
    from False "1.prems"(1) s have f: "fits m k (p @ [?i])" by (auto simp: fits_def)
    from tk have "take (length (p @ [?i])) t = p @ [?i]" by simp
    from "1.IH" [OF False i f "1.prems"(2,3) this] obtain n where
      n: "length (p @ [?i]) \<le> n" "take n t \<in> set (tuples_from m k (p @ [?i]))" by blast
    from n(2) i have "take n t \<in> set (tuples_from m k p)"
      unfolding tuples_from_inner [OF False] in_concat_map by blast
    with n(1) show ?thesis by (intro exI [of _ n]) simp
  qed
qed

lemma tuples_fits:
  assumes "1 \<le> m" and "t \<in> set (tuples m k)"
  shows "t \<noteq> [] \<and> length t \<le> m \<and> (sum_list t = k \<or> (sum_list t < k \<and> length t = m))"
proof -
  from assms(2) obtain i where i: "i \<in> set (rev [0..<k + 1])" and t: "t \<in> set (tuples_from m k [i])"
    unfolding tuples_def in_concat_map by blast
  from i have "i \<le> k" by (simp only: in_rev_upt)
  with assms(1) have "fits m k [i]" by (simp add: fits_def)
  from tuples_from_fits [OF this t] show ?thesis by (simp add: fits_def)
qed

lemma tuples_cover:
  assumes "1 \<le> m" and "length t = m" and "sum_list t \<le> k"
  shows "\<exists>n. 1 \<le> n \<and> take n t \<in> set (tuples m k)"
proof -
  from assms(1,2) obtain i t' where t: "t = i # t'" by (cases t) auto
  with assms(3) have "i \<le> k" by simp
  then have i: "i \<in> set (rev [0..<k + 1])" by (simp only: in_rev_upt)
  from \<open>i \<le> k\<close> assms(1) have f: "fits m k [i]" by (simp add: fits_def)
  from t have "take (length [i]) t = [i]" by simp
  from tuples_from_cover [OF f assms(2,3) this] obtain n where
    n: "length [i] \<le> n" "take n t \<in> set (tuples_from m k [i])" by blast
  from n(2) i have "take n t \<in> set (tuples m k)"
    unfolding tuples_def in_concat_map by blast
  with n(1) show ?thesis by (intro exI [of _ n]) simp
qed

lemma zip_up_set:
  "set (zip_up current levels) = (\<lambda>xs. current @ concat xs) ` listset (map set levels)"
proof (induction levels arbitrary: current)
  case Nil
  then show ?case by simp
next
  case (Cons level levels)
  have "set (zip_up current (level # levels))
      = (\<Union>x\<in>set level. (\<lambda>xs. (current @ x) @ concat xs) ` listset (map set levels))"
    by (simp add: Cons.IH)
  also have "\<dots> = (\<lambda>xs. current @ concat xs) ` set_Cons (set level) (listset (map set levels))"
  proof (rule set_eqI)
    fix y
    show "y \<in> (\<Union>x\<in>set level. (\<lambda>xs. (current @ x) @ concat xs) ` listset (map set levels))
      \<longleftrightarrow> y \<in> (\<lambda>xs. current @ concat xs) ` set_Cons (set level) (listset (map set levels))"
    proof
      assume "y \<in> (\<Union>x\<in>set level. (\<lambda>xs. (current @ x) @ concat xs) ` listset (map set levels))"
      then obtain x xs where "x \<in> set level" "xs \<in> listset (map set levels)"
        "y = (current @ x) @ concat xs" by blast
      then have "x # xs \<in> set_Cons (set level) (listset (map set levels))"
        "y = current @ concat (x # xs)" by (simp_all add: set_Cons_def)
      then show "y \<in> (\<lambda>xs. current @ concat xs) ` set_Cons (set level) (listset (map set levels))"
        by blast
    next
      assume "y \<in> (\<lambda>xs. current @ concat xs) ` set_Cons (set level) (listset (map set levels))"
      then obtain x xs where "x \<in> set level" "xs \<in> listset (map set levels)"
        "y = current @ concat (x # xs)" by (auto simp: set_Cons_def)
      then have "y = (current @ x) @ concat xs" by simp
      with \<open>x \<in> set level\<close> \<open>xs \<in> listset (map set levels)\<close>
      show "y \<in> (\<Union>x\<in>set level. (\<lambda>xs. (current @ x) @ concat xs) ` listset (map set levels))"
        by blast
    qed
  qed
  finally show ?case by simp
qed

lemma listset_empty: "{} \<in> set As \<Longrightarrow> listset As = {}"
  by (induction As) (auto simp: set_Cons_def)

lemma derivations_set:
  "set (derivations env rhs base_index p af)
     = concat ` listset (map (\<lambda>i. set (position_derivations env rhs base_index p af i)) [0..<length p])"
proof (cases "[] \<in> set (map (position_derivations env rhs base_index p af) [0..<length p])")
  case True
  then obtain i where i: "i \<in> set [0..<length p]"
    and e: "position_derivations env rhs base_index p af i = []"
    unfolding set_map by (metis imageE)
  from e have "set (position_derivations env rhs base_index p af i) = {}" by simp
  with i have "{} \<in> set (map (\<lambda>i. set (position_derivations env rhs base_index p af i)) [0..<length p])"
    unfolding set_map by (metis image_eqI)
  then have "listset (map (\<lambda>i. set (position_derivations env rhs base_index p af i)) [0..<length p]) = {}"
    by (rule listset_empty)
  with True show ?thesis by (simp add: derivations_def Let_def)
next
  case False
  then show ?thesis by (simp add: derivations_def Let_def zip_up_set comp_def)
qed

lemma first_pull_set:
  "set (first_pull env symbol n) = (\<Union>fs\<in>set (kfirst_gen env symbol n True). set fs) - {[epsilon]}"
proof -
  have e: "\<And>s :: subproduction. (length s = Suc 0 \<and> s ! 0 = epsilon) = (s = [epsilon])"
    by (case_tac s) auto
  show ?thesis by (auto simp: first_pull_def e)
qed


text \<open>
  C5.  \<open>_kfollow_permutations\<close> yields the single partial FollowSet of the empty sequence,
  pointing at the left-hand side, when the occurrence ends the right-hand side.  Otherwise,
  unless the guard of 500 iterations ends the enumeration, it yields one FollowSet for each
  enumerated tuple, in the order of the enumeration.  An enumerated tuple gives lengths to
  the first symbols behind the occurrence and either sums to \<open>k\<close> or sums to less and
  gives a length to every symbol; and every assignment of lengths to all the symbols that
  sums to at most \<open>k\<close> begins with an enumerated tuple.  A tuple that sums to \<open>k\<close> gives a
  complete FollowSet pointing at the left-hand side, holding the concatenations of one
  derivation for each position, where the last non-zero position, if its symbol is not a
  terminal, takes its derivations from \<open>_kfirst\<close> with underflow allowed (less the sequence
  that is epsilon alone) and every other position takes the exact-length derivations.  A tuple
  that sums to less gives a partial FollowSet pointing at the left-hand side, built from
  exact-length derivations only.
\<close>

theorem C5_permutation_classification:
  "(base_index = length rhs \<longrightarrow>
      kfollow_permutations env (L, rhs) base_index k = Inr [FollowSet_partial [[]] L k])
   \<and> (base_index < length rhs \<longrightarrow>
      kfollow_permutations env (L, rhs) base_index k =
        (if visits (length rhs - base_index) k \<le> 500
         then Inr (map (classified env (L, rhs) base_index k) (tuples (length rhs - base_index) k))
         else Inl ReachedMaxIteration))
   \<and> (1 \<le> m \<and> t \<in> set (tuples m k) \<longrightarrow>
        t \<noteq> [] \<and> length t \<le> m \<and> (sum_list t = k \<or> (sum_list t < k \<and> length t = m)))
   \<and> (1 \<le> m \<and> length t = m \<and> sum_list t \<le> k \<longrightarrow> (\<exists>n. 1 \<le> n \<and> take n t \<in> set (tuples m k)))
   \<and> (sum_list p = k \<longrightarrow>
        is_complete (classified env (L, rhs) base_index k p)
        \<and> follow (classified env (L, rhs) base_index k p) = L
        \<and> set (completes (classified env (L, rhs) base_index k p))
            = concat ` listset (map (\<lambda>i. set (position_derivations env rhs base_index p True i))
                                [0..<length p]))
   \<and> (sum_list p \<noteq> k \<longrightarrow>
        \<not> is_complete (classified env (L, rhs) base_index k p)
        \<and> follow (classified env (L, rhs) base_index k p) = L
        \<and> completes (classified env (L, rhs) base_index k p) = []
        \<and> set (partials (classified env (L, rhs) base_index k p))
            = concat ` listset (map (\<lambda>i. set (get_exact env (rhs ! (i + base_index)) (p ! i)))
                                [0..<length p]))
   \<and> (i < length p \<longrightarrow>
        position_derivations env rhs base_index p True i =
          (if int i = last_nonzero p \<and> \<not> is_term (rhs ! (i + base_index))
           then first_pull env (rhs ! (i + base_index)) (p ! i)
           else get_exact env (rhs ! (i + base_index)) (p ! i)))
   \<and> set (first_pull env symbol n)
        = (\<Union>fs\<in>set (kfirst_gen env symbol n True). set fs) - {[epsilon]}"
proof -
  have a: "base_index = length rhs \<longrightarrow>
      kfollow_permutations env (L, rhs) base_index k = Inr [FollowSet_partial [[]] L k]"
    by (simp add: kfollow_permutations_def kfollow_permutations_run_def)
  have b: "base_index < length rhs \<longrightarrow>
      kfollow_permutations env (L, rhs) base_index k =
        (if visits (length rhs - base_index) k \<le> 500
         then Inr (map (classified env (L, rhs) base_index k) (tuples (length rhs - base_index) k))
         else Inl ReachedMaxIteration)"
    by (rule impI) (rule kfollow_permutations_eq)
  have c: "1 \<le> m \<and> t \<in> set (tuples m k) \<longrightarrow>
        t \<noteq> [] \<and> length t \<le> m \<and> (sum_list t = k \<or> (sum_list t < k \<and> length t = m))"
    using tuples_fits [of m t k] by blast
  have d: "1 \<le> m \<and> length t = m \<and> sum_list t \<le> k \<longrightarrow> (\<exists>n. 1 \<le> n \<and> take n t \<in> set (tuples m k))"
    using tuples_cover [of m t k] by blast
  have e: "sum_list p = k \<longrightarrow>
        is_complete (classified env (L, rhs) base_index k p)
        \<and> follow (classified env (L, rhs) base_index k p) = L
        \<and> set (completes (classified env (L, rhs) base_index k p))
            = concat ` listset (map (\<lambda>i. set (position_derivations env rhs base_index p True i))
                                [0..<length p])"
    by (simp add: classified_def FollowSet_complete_def derivations_set)
  have pf: "\<And>i. position_derivations env rhs base_index p False i
      = get_exact env (rhs ! (i + base_index)) (p ! i)"
    by (simp add: position_derivations_def)
  have f: "sum_list p \<noteq> k \<longrightarrow>
        \<not> is_complete (classified env (L, rhs) base_index k p)
        \<and> follow (classified env (L, rhs) base_index k p) = L
        \<and> completes (classified env (L, rhs) base_index k p) = []
        \<and> set (partials (classified env (L, rhs) base_index k p))
            = concat ` listset (map (\<lambda>i. set (get_exact env (rhs ! (i + base_index)) (p ! i)))
                                [0..<length p])"
    by (simp add: classified_def FollowSet_partial_def derivations_set pf)
  have g: "i < length p \<longrightarrow>
        position_derivations env rhs base_index p True i =
          (if int i = last_nonzero p \<and> \<not> is_term (rhs ! (i + base_index))
           then first_pull env (rhs ! (i + base_index)) (p ! i)
           else get_exact env (rhs ! (i + base_index)) (p ! i))"
  proof
    assume "i < length p"
    from last_nonzero_iff [OF this] show "position_derivations env rhs base_index p True i =
          (if int i = last_nonzero p \<and> \<not> is_term (rhs ! (i + base_index))
           then first_pull env (rhs ! (i + base_index)) (p ! i)
           else get_exact env (rhs ! (i + base_index)) (p ! i))"
      by (simp add: position_derivations_def Let_def)
  qed
  from a b c d e f g first_pull_set [of env symbol n] show ?thesis by blast
qed

text \<open>
  The theorem at the production \<open>S ::= A B\<close> behind the occurrence of \<open>B\<close> and of \<open>A\<close>, at
  \<open>S ::= A B B\<close> behind \<open>A\<close>, with \<open>k = 1\<close>, and at a production with six symbols behind
  the occurrence and \<open>k = 5\<close>, whose enumeration takes more than 500 tuples.
\<close>

theorem C5_permutation_classification_witness:
  "kfollow_permutations sequence_env (''S'', [''A'', ''B'']) 2 1 = Inr [FollowSet_partial [[]] ''S'' 1]
   \<and> tuples 1 1 = [[1], [0]] \<and> visits 1 1 = 2
   \<and> kfollow_permutations sequence_env (''S'', [''A'', ''B'']) 1 1
       = Inr [FollowSet_complete [[quoted ''b'']] ''S'' 1, FollowSet_partial [] ''S'' 1]
   \<and> tuples 2 1 = [[1], [0, 1], [0, 0]] \<and> visits 2 1 = 4
   \<and> kfollow_permutations sequence_env (''S'', [''A'', ''B'', ''B'']) 1 1
       = Inr [FollowSet_complete [[quoted ''b'']] ''S'' 1, FollowSet_complete [] ''S'' 1,
              FollowSet_partial [] ''S'' 1]
   \<and> 500 < visits 6 5
   \<and> kfollow_permutations sequence_env long_production 1 5 = Inl ReachedMaxIteration"
proof -
  note T = C5_permutation_classification [where env = sequence_env and L = "''S''" and k = 1]
  from T [where rhs = "[''A'', ''B'']" and base_index = 2, THEN conjunct1]
  have a: "kfollow_permutations sequence_env (''S'', [''A'', ''B'']) 2 1
      = Inr [FollowSet_partial [[]] ''S'' 1]"
    by simp
  have t1: "tuples 1 1 = [[1], [0]]" by code_simp
  have v1: "visits 1 1 = 2" by code_simp
  have c1: "map (classified sequence_env (''S'', [''A'', ''B'']) 1 1) [[1], [0]]
      = [FollowSet_complete [[quoted ''b'']] ''S'' 1, FollowSet_partial [] ''S'' 1]"
    by code_simp
  have l1: "length [''A'', ''B''] - 1 = 1" "(1 :: nat) < length [''A'', ''B'']" by simp_all
  from T [where rhs = "[''A'', ''B'']" and base_index = 1, THEN conjunct2, THEN conjunct1,
      THEN mp, OF l1(2)]
  have "kfollow_permutations sequence_env (''S'', [''A'', ''B'']) 1 1
       = (if (2 :: nat) \<le> 500
          then Inr [FollowSet_complete [[quoted ''b'']] ''S'' 1, FollowSet_partial [] ''S'' 1]
          else Inl ReachedMaxIteration)"
    unfolding l1(1) t1 v1 c1 .
  then have b: "kfollow_permutations sequence_env (''S'', [''A'', ''B'']) 1 1
       = Inr [FollowSet_complete [[quoted ''b'']] ''S'' 1, FollowSet_partial [] ''S'' 1]"
    by simp
  have t2: "tuples 2 1 = [[1], [0, 1], [0, 0]]" by code_simp
  have v2: "visits 2 1 = 4" by code_simp
  have c2: "map (classified sequence_env (''S'', [''A'', ''B'', ''B'']) 1 1) [[1], [0, 1], [0, 0]]
      = [FollowSet_complete [[quoted ''b'']] ''S'' 1, FollowSet_complete [] ''S'' 1,
         FollowSet_partial [] ''S'' 1]"
    by code_simp
  have l2: "length [''A'', ''B'', ''B''] - 1 = 2" "(1 :: nat) < length [''A'', ''B'', ''B'']"
    by simp_all
  from T [where rhs = "[''A'', ''B'', ''B'']" and base_index = 1, THEN conjunct2, THEN conjunct1,
      THEN mp, OF l2(2)]
  have "kfollow_permutations sequence_env (''S'', [''A'', ''B'', ''B'']) 1 1
       = (if (4 :: nat) \<le> 500
          then Inr [FollowSet_complete [[quoted ''b'']] ''S'' 1, FollowSet_complete [] ''S'' 1,
              FollowSet_partial [] ''S'' 1]
          else Inl ReachedMaxIteration)"
    unfolding l2(1) t2 v2 c2 .
  then have c: "kfollow_permutations sequence_env (''S'', [''A'', ''B'', ''B'']) 1 1
       = Inr [FollowSet_complete [[quoted ''b'']] ''S'' 1, FollowSet_complete [] ''S'' 1,
              FollowSet_partial [] ''S'' 1]"
    by simp
  have v3: "500 < visits 6 5" by code_simp
  have l3: "length (snd long_production) - 1 = 6" "(1 :: nat) < length (snd long_production)"
    "(''S'', snd long_production) = long_production"
    by (simp_all add: long_production_def)
  from v3 have nv: "\<not> visits 6 5 \<le> 500" by simp
  from C5_permutation_classification [where env = sequence_env and L = "''S''" and k = 5
      and rhs = "snd long_production" and base_index = 1, THEN conjunct2, THEN conjunct1,
      THEN mp, OF l3(2)]
  have "kfollow_permutations sequence_env long_production 1 5 =
      (if visits 6 5 \<le> 500
       then Inr (map (classified sequence_env long_production 1 5) (tuples 6 5))
       else Inl ReachedMaxIteration)"
    unfolding l3(1) l3(3) .
  with nv have d: "kfollow_permutations sequence_env long_production 1 5 = Inl ReachedMaxIteration"
    by simp
  from a t1 v1 b t2 v2 c v3 d show ?thesis by (intro conjI)
qed

text \<open>
  C8.  Both loops start with a guard of 500 that loses one at every iteration, so neither
  runs more than 500 iterations.  The guard's exception is raised only with the guard at zero
  and work left (a non-empty queue, or \<open>changed\<close> true), and it is raised whenever the
  loop meets its test in that state; a loop that leaves without an exception has finished
  (empty queue, or \<open>changed\<close> false).  A run that finishes within a bound \<open>n\<close> of at most
  500 gives the same result under the bound of 500: the guard raises nothing on it.
\<close>

theorem C8_iteration_guards:
  "(permutations_loop env production base_index k 500 queue = (out, g, q) \<longrightarrow>
      g \<le> 500 \<and> (out = Inl ReachedMaxIteration \<longrightarrow> g = 0 \<and> q \<noteq> [])
      \<and> ((\<exists>ys. out = Inr ys) \<longleftrightarrow> q = []))
   \<and> (queue \<noteq> [] \<longrightarrow>
      permutations_loop env production base_index k 0 queue = (Inl ReachedMaxIteration, 0, queue))
   \<and> (n \<le> 500 \<and> permutations_loop env production base_index k n queue = (Inr ys, g', q') \<longrightarrow>
      permutations_loop env production base_index k 500 queue = (Inr ys, g' + (500 - n), q'))
   \<and> (fixpoint_loop env 500 F = (fout, fg, chg) \<longrightarrow>
      fg \<le> 500 \<and> (fout = Inl ReachedIterationLimit \<longrightarrow> fg = 0 \<and> chg)
      \<and> ((\<exists>F'. fout = Inr F') \<longleftrightarrow> \<not> chg))
   \<and> fixpoint_loop env 0 F = (Inl ReachedIterationLimit, 0, True)
   \<and> (n \<le> 500 \<and> fixpoint_loop env n F = (Inr Fr, fg', chg') \<longrightarrow>
      fixpoint_loop env 500 F = (Inr Fr, fg' + (500 - n), chg'))"
proof -
  have a: "permutations_loop env production base_index k 500 queue = (out, g, q) \<longrightarrow>
      g \<le> 500 \<and> (out = Inl ReachedMaxIteration \<longrightarrow> g = 0 \<and> q \<noteq> [])
      \<and> ((\<exists>ys. out = Inr ys) \<longleftrightarrow> q = [])"
    by (rule impI) (rule permutations_loop_guard)
  have b: "queue \<noteq> [] \<longrightarrow>
      permutations_loop env production base_index k 0 queue = (Inl ReachedMaxIteration, 0, queue)"
    by simp
  have c: "n \<le> 500 \<and> permutations_loop env production base_index k n queue = (Inr ys, g', q') \<longrightarrow>
      permutations_loop env production base_index k 500 queue = (Inr ys, g' + (500 - n), q')"
  proof
    assume h: "n \<le> 500 \<and> permutations_loop env production base_index k n queue = (Inr ys, g', q')"
    then have "permutations_loop env production base_index k (n + (500 - n)) queue
        = (Inr ys, g' + (500 - n), q')"
      by (intro permutations_loop_more_guard) simp
    with h show "permutations_loop env production base_index k 500 queue
        = (Inr ys, g' + (500 - n), q')" by simp
  qed
  have d: "fixpoint_loop env 500 F = (fout, fg, chg) \<longrightarrow>
      fg \<le> 500 \<and> (fout = Inl ReachedIterationLimit \<longrightarrow> fg = 0 \<and> chg)
      \<and> ((\<exists>F'. fout = Inr F') \<longleftrightarrow> \<not> chg)"
    by (rule impI) (rule fixpoint_loop_guard)
  have e: "fixpoint_loop env 0 F = (Inl ReachedIterationLimit, 0, True)" by simp
  have f: "n \<le> 500 \<and> fixpoint_loop env n F = (Inr Fr, fg', chg') \<longrightarrow>
      fixpoint_loop env 500 F = (Inr Fr, fg' + (500 - n), chg')"
  proof
    assume h: "n \<le> 500 \<and> fixpoint_loop env n F = (Inr Fr, fg', chg')"
    then have "fixpoint_loop env (n + (500 - n)) F = (Inr Fr, fg' + (500 - n), chg')"
      by (intro fixpoint_loop_more_guard) simp
    with h show "fixpoint_loop env 500 F = (Inr Fr, fg' + (500 - n), chg')" by simp
  qed
  from a b c d e f show ?thesis by blast
qed

text \<open>
  The theorem on runs that finish in two iterations, on the enumeration for a production with
  six symbols behind the occurrence and \<open>k = 5\<close>, which needs more than 500 iterations, and
  on a fixpoint whose \<open>append\<close> reports a change at every pass.
\<close>

theorem C8_iteration_guards_witness:
  "permutations_loop sequence_env (''S'', [''A'', ''B'']) 1 1 500 [[0], [1]]
     = (Inr [FollowSet_complete [[quoted ''b'']] ''S'' 1, FollowSet_partial [] ''S'' 1], 498, [])
   \<and> permutations_loop sequence_env long_production 1 5 500 (map (\<lambda>i. [i]) [0..<5 + 1])
     = (Inl ReachedMaxIteration, 0,
        snd (snd (permutations_loop sequence_env long_production 1 5 500 (map (\<lambda>i. [i]) [0..<5 + 1]))))
   \<and> snd (snd (permutations_loop sequence_env long_production 1 5 500 (map (\<lambda>i. [i]) [0..<5 + 1]))) \<noteq> []
   \<and> kfollow_permutations sequence_env long_production 1 5 = Inl ReachedMaxIteration
   \<and> fixpoint_loop sequence_env 500 settling_lookup = (Inr settled_lookup, 498, False)
   \<and> fixpoint_loop restless_env 500 looping_lookup = (Inl ReachedIterationLimit, 0, True)"
proof -
  note T = C8_iteration_guards [where env = sequence_env and k = 1 and base_index = 1
      and production = "(''S'', [''A'', ''B''])" and queue = "[[0], [1]]" and n = 2
      and F = settling_lookup]
  have p2: "permutations_loop sequence_env (''S'', [''A'', ''B'']) 1 1 2 [[0], [1]]
     = (Inr [FollowSet_complete [[quoted ''b'']] ''S'' 1, FollowSet_partial [] ''S'' 1], 0, [])"
    by code_simp
  from T [where ys = "[FollowSet_complete [[quoted ''b'']] ''S'' 1, FollowSet_partial [] ''S'' 1]"
      and g' = 0 and q' = "[]"] p2
  have a: "permutations_loop sequence_env (''S'', [''A'', ''B'']) 1 1 500 [[0], [1]]
     = (Inr [FollowSet_complete [[quoted ''b'']] ''S'' 1, FollowSet_partial [] ''S'' 1], 498, [])"
    by simp
  have f2: "fixpoint_loop sequence_env 2 settling_lookup = (Inr settled_lookup, 0, False)"
    by code_simp
  from T [where Fr = settled_lookup and fg' = 0 and chg' = False] f2
  have b: "fixpoint_loop sequence_env 500 settling_lookup = (Inr settled_lookup, 498, False)"
    by simp
  have big: "kfollow_permutations sequence_env long_production 1 5 = Inl ReachedMaxIteration"
    by code_simp
  obtain out g q where
    r: "permutations_loop sequence_env long_production 1 5 500 (map (\<lambda>i. [i]) [0..<5 + 1]) = (out, g, q)"
    by (cases "permutations_loop sequence_env long_production 1 5 500 (map (\<lambda>i. [i]) [0..<5 + 1])")
  have ne: "1 \<noteq> length (snd long_production)" by (simp add: long_production_def)
  from big r ne have o: "out = Inl ReachedMaxIteration"
    by (simp add: kfollow_permutations_def kfollow_permutations_run_def)
  from C8_iteration_guards [where env = sequence_env and k = 5 and base_index = 1
      and production = long_production and queue = "map (\<lambda>i. [i]) [0..<5 + 1]"
      and out = out and g = g and q = q] r o
  have c: "g = 0 \<and> q \<noteq> []" by simp
  have d: "fixpoint_loop restless_env 500 looping_lookup = (Inl ReachedIterationLimit, 0, True)"
    by code_simp
  from a b big r o c d show ?thesis by simp
qed

section \<open>FOLLOW: the end-of-input sentinel\<close>

lemma key_index_Some:
  "key_index F key = Some a \<Longrightarrow> a < length F \<and> fst (F ! a) = key"
  by (induction F arbitrary: a) (auto split: if_splits)

lemma get_put_fs:
  "a < length F \<Longrightarrow> b < length (snd (F ! a)) \<Longrightarrow>
   get_fs (put_fs F a' b' fs) a b = (if a' = a \<and> b' = b then fs else get_fs F a b)"
  by (cases "a' = a"; cases "b' = b") (simp_all add: get_fs_def put_fs_def)

lemma put_fs_length [simp]: "length (put_fs F a b fs) = length F"
  by (simp add: put_fs_def)

lemma put_fs_fst: "a < length F \<Longrightarrow> fst (put_fs F a' b' fs ! a) = fst (F ! a)"
  by (cases "a' = a") (simp_all add: put_fs_def)

lemma put_fs_snd_length:
  "a < length F \<Longrightarrow> length (snd (put_fs F a' b' fs ! a)) = length (snd (F ! a))"
  by (cases "a' = a") (simp_all add: put_fs_def)

lemma protected_put_other:
  "protected start a b F \<Longrightarrow> \<not> (a' = a \<and> b' = b) \<Longrightarrow> protected start a b (put_fs F a' b' fs)"
  by (auto simp: protected_def put_fs_fst put_fs_snd_length get_put_fs)

lemma protected_put_same:
  "protected start a b F \<Longrightarrow> is_complete fs \<Longrightarrow> follow fs = start \<Longrightarrow>
   [''$''] \<in> set (completes fs) \<Longrightarrow> protected start a b (put_fs F a b fs)"
  by (auto simp: protected_def put_fs_fst put_fs_snd_length get_put_fs)

lemma protected_append_others:
  "protected start a b F \<Longrightarrow> \<not> (a' = a \<and> b' = b) \<Longrightarrow>
   protected start a b (append_others env F a' b' c ms)"
  by (induction ms arbitrary: F) (auto intro: protected_put_other)

lemma protected_fixpoint_followset:
  assumes "protected start a b F" and "fixpoint_followset env F a' b' = Inr F'"
  shows "protected start a b F'"
proof (cases "a' = a \<and> b' = b")
  case True
  let ?fs = "(get_fs F a b)\<lparr>changed := False\<rparr>"
  from assms(1) have p: "protected start a b (put_fs F a b ?fs)"
    by (intro protected_put_same) (auto simp: protected_def)
  from assms(1) have "get_fs (put_fs F a b ?fs) a b = ?fs"
    by (simp add: get_put_fs protected_def)
  with assms(1) have "is_complete (get_fs (put_fs F a b ?fs) a b)"
    by (simp add: protected_def)
  with assms(2) True have "F' = put_fs F a b ?fs"
    by (simp add: fixpoint_followset_def Let_def)
  with p show ?thesis by simp
next
  case False
  let ?F1 = "put_fs F a' b' ((get_fs F a' b')\<lparr>changed := False\<rparr>)"
  from assms(1) False have p: "protected start a b ?F1"
    by (rule protected_put_other)
  from assms(2) have
    "F' = ?F1 \<or> (\<exists>c. F' = append_others env ?F1 a' b' c [0..<length (snd (?F1 ! c))])"
    by (auto simp: fixpoint_followset_def Let_def split: if_splits option.splits)
  with p False show ?thesis by (auto intro: protected_append_others)
qed

lemma protected_followsets_loop:
  "protected start a b F \<Longrightarrow> followsets_loop env F a' bs = Inr F' \<Longrightarrow> protected start a b F'"
proof (induction bs arbitrary: F)
  case Nil
  then show ?case by simp
next
  case (Cons b' bs)
  from Cons.prems(2) obtain F1 where
    s: "fixpoint_followset env F a' b' = Inr F1" and r: "followsets_loop env F1 a' bs = Inr F'"
    by (auto split: sum.splits)
  from protected_fixpoint_followset [OF Cons.prems(1) s] have "protected start a b F1" .
  from Cons.IH [OF this r] show ?case .
qed

lemma protected_values_loop:
  "protected start a b F \<Longrightarrow> values_loop env F chg as = Inr (F', chg') \<Longrightarrow> protected start a b F'"
proof (induction as arbitrary: F chg)
  case Nil
  then show ?case by simp
next
  case (Cons a' as)
  from Cons.prems(2) obtain F1 where
    s: "followsets_loop env F a' [0..<length (snd (F ! a'))] = Inr F1" and
    r: "values_loop env F1 (chg \<or> (\<exists>x\<in>set (snd (F1 ! a')). changed x)) as = Inr (F', chg')"
    by (auto split: sum.splits)
  from protected_followsets_loop [OF Cons.prems(1) s] have "protected start a b F1" .
  from Cons.IH [OF this r] show ?case .
qed

lemma protected_fixpoint_loop:
  "protected start a b F \<Longrightarrow> fixpoint_loop env guard F = (Inr F', g, chg) \<Longrightarrow>
   protected start a b F'"
proof (induction guard arbitrary: F)
  case 0
  then show ?case by simp
next
  case (Suc guard)
  from Suc.prems(2) obtain F1 c where p: "fixpoint_pass env F = Inr (F1, c)"
    by (auto split: sum.splits)
  from protected_values_loop [OF Suc.prems(1) p [unfolded fixpoint_pass_def]]
  have q: "protected start a b F1" .
  show ?case
  proof (cases c)
    case True
    with Suc.prems(2) p have "fixpoint_loop env guard F1 = (Inr F', g, chg)" by simp
    from Suc.IH [OF q this] show ?thesis .
  next
    case False
    with Suc.prems(2) p have "F' = F1" by simp
    with q show ?thesis by simp
  qed
qed

lemma protected_fixpoint_solution:
  assumes "protected start a b F" and "kfollow_fixpoint_solution env F = Inr F'"
  shows "protected start a b F'"
proof -
  obtain out g chg where r: "fixpoint_loop env 500 F = (out, g, chg)"
    by (cases "fixpoint_loop env 500 F")
  with assms(2) have "out = Inr F'" by (simp add: kfollow_fixpoint_solution_def)
  with r protected_fixpoint_loop [OF assms(1)] show ?thesis by blast
qed

lemma protected_extend:
  "protected start a b F \<Longrightarrow>
   protected start a b (F[a' := (fst (F ! a'), snd (F ! a') @ yielded)])"
  by (cases "a' = a") (auto simp: protected_def get_fs_def nth_append)

lemma protected_collect_loop:
  "protected start a b F \<Longrightarrow> collect_loop env table i F as = Inr F' \<Longrightarrow> protected start a b F'"
proof (induction as arbitrary: F)
  case Nil
  then show ?case by simp
next
  case (Cons a' as)
  from Cons.prems(2) obtain yielded where
    r: "collect_loop env table i (F[a' := (fst (F ! a'), snd (F ! a') @ yielded)]) as = Inr F'"
    by (auto split: sum.splits)
  from Cons.IH [OF protected_extend [OF Cons.prems(1)] r] show ?case .
qed

lemma protected_rounds:
  "protected start a b F \<Longrightarrow> kfollow_rounds env table F is = Inr F' \<Longrightarrow> protected start a b F'"
proof (induction "is" arbitrary: F)
  case Nil
  then show ?case by simp
next
  case (Cons i "is")
  from Cons.prems(2) obtain F1 F2 where
    c: "collect_loop env table i F [0..<length F] = Inr F1" and
    f: "kfollow_fixpoint_solution env F1 = Inr F2" and
    r: "kfollow_rounds env table F2 is = Inr F'"
    by (auto split: sum.splits)
  from protected_collect_loop [OF Cons.prems(1) c] have "protected start a b F1" .
  from protected_fixpoint_solution [OF this f] have "protected start a b F2" .
  from Cons.IH [OF this r] show ?case .
qed

lemma seed_protected:
  assumes "seed_start table start = Inr F"
  shows "\<exists>a b. protected start a b F"
proof -
  let ?F0 = "initial_sets table :: follow_lookup"
  from assms obtain a where k: "key_index ?F0 start = Some a"
    and F: "F = ?F0[a := (fst (?F0 ! a), snd (?F0 ! a) @ [initial_start start])]"
    by (auto simp: seed_start_def Let_def split: option.splits)
  from key_index_Some [OF k] have a: "a < length ?F0" "fst (?F0 ! a) = start" by auto
  have "protected start a (length (snd (?F0 ! a))) F"
    using a by (simp add: F protected_def get_fs_def initial_start_def FollowSet_complete_def)
  then show ?thesis by blast
qed

lemma has_entry_ret_add_keep: "has_entry ret symbol x \<Longrightarrow> has_entry (ret_add ret symbol' x') symbol x"
  by (auto simp: has_entry_def ret_add_def update_conv')

lemma has_entry_ret_add_new: "has_entry (ret_add ret symbol x) symbol x"
  by (auto simp: has_entry_def ret_add_def update_conv')

lemma has_entry_fold_keep:
  "has_entry ret symbol x \<Longrightarrow>
   has_entry (fold (\<lambda>sp r. ret_add r symbol' (follow_entry sp)) sps ret) symbol x"
  by (induction sps arbitrary: ret) (auto intro: has_entry_ret_add_keep)

lemma has_entry_fold_new:
  "sp \<in> set sps \<Longrightarrow>
   has_entry (fold (\<lambda>sp r. ret_add r symbol (follow_entry sp)) sps ret) symbol (follow_entry sp)"
proof (induction sps arbitrary: ret)
  case Nil
  then show ?case by simp
next
  case (Cons a sps)
  show ?case
  proof (cases "sp = a")
    case True
    have "has_entry (ret_add ret symbol (follow_entry a)) symbol (follow_entry a)"
      by (rule has_entry_ret_add_new)
    from has_entry_fold_keep [OF this] True show ?thesis by simp
  next
    case False
    with Cons.prems have "sp \<in> set sps" by simp
    from Cons.IH [OF this] show ?thesis by simp
  qed
qed

lemma has_entry_flatten_follows_keep:
  "has_entry ret symbol x \<Longrightarrow> has_entry (flatten_follows ret symbol' followsets fs) symbol x"
  by (induction fs arbitrary: ret) (auto simp: Let_def intro: has_entry_fold_keep)

lemma has_entry_flatten_follows_new:
  "f \<in> set fs \<Longrightarrow>
   sp \<in> set (additional (joined followsets f)) \<union> set (completes (joined followsets f)) \<Longrightarrow>
   has_entry (flatten_follows ret symbol followsets fs) symbol (follow_entry sp)"
proof (induction fs arbitrary: ret)
  case Nil
  then show ?case by simp
next
  case (Cons a fs)
  show ?case
  proof (cases "f = a")
    case True
    with Cons.prems(2) have
      "sp \<in> set (List.union (additional (joined followsets a)) (completes (joined followsets a)))"
      by simp
    from has_entry_fold_new [OF this]
    have "has_entry (fold (\<lambda>sp r. ret_add r symbol (follow_entry sp))
        (List.union (additional (joined followsets a)) (completes (joined followsets a))) ret)
        symbol (follow_entry sp)" .
    from has_entry_flatten_follows_keep [OF this] show ?thesis by (simp add: Let_def)
  next
    case False
    with Cons.prems have "f \<in> set fs" by simp
    from Cons.IH [OF this Cons.prems(2)] show ?thesis by (simp add: Let_def)
  qed
qed

lemma has_entry_flatten_items_keep:
  "has_entry ret symbol x \<Longrightarrow> has_entry (flatten_items ret F) symbol x"
proof (induction F arbitrary: ret)
  case Nil
  then show ?case by simp
next
  case (Cons entry F)
  obtain symbol' followsets where e: "entry = (symbol', followsets)" by (cases entry)
  from has_entry_flatten_follows_keep [OF Cons.prems]
  have "has_entry (flatten_follows ret symbol' followsets (remdups (map follow followsets))) symbol x" .
  from Cons.IH [OF this] e show ?case by simp
qed

lemma completes_foldl_upgrade:
  "set (completes (foldl upgrade x xs)) = set (completes x) \<union> \<Union> ((set \<circ> completes) ` set xs)"
  by (induction xs arbitrary: x) (auto simp: upgrade_def)

lemma completes_joined:
  assumes "fs \<in> set followsets"
  shows "set (completes fs) \<subseteq> set (completes (joined followsets (follow fs)))"
proof -
  let ?group = "filter (\<lambda>followset. follow followset = follow fs) followsets"
  from assms have m: "fs \<in> set ?group" by simp
  then have "?group = hd ?group # tl ?group" by (cases ?group) auto
  with m have "fs = hd ?group \<or> fs \<in> set (tl ?group)"
    by (metis set_ConsD)
  then show ?thesis
    by (auto simp: joined_def Let_def completes_foldl_upgrade)
qed

lemma has_entry_flatten_items_new:
  "(symbol, followsets) \<in> set F \<Longrightarrow> fs \<in> set followsets \<Longrightarrow> sp \<in> set (completes fs) \<Longrightarrow>
   has_entry (flatten_items ret F) symbol (follow_entry sp)"
proof (induction F arbitrary: ret)
  case Nil
  then show ?case by simp
next
  case (Cons entry F)
  show ?case
  proof (cases "entry = (symbol, followsets)")
    case True
    from Cons.prems(2) have f: "follow fs \<in> set (remdups (map follow followsets))" by simp
    from completes_joined [OF Cons.prems(2)] Cons.prems(3)
    have "sp \<in> set (additional (joined followsets (follow fs)))
        \<union> set (completes (joined followsets (follow fs)))" by auto
    from has_entry_flatten_follows_new [OF f this]
    have "has_entry (flatten_follows ret symbol followsets (remdups (map follow followsets)))
        symbol (follow_entry sp)" .
    from has_entry_flatten_items_keep [OF this] True show ?thesis by simp
  next
    case False
    with Cons.prems(1) have "(symbol, followsets) \<in> set F" by simp
    from Cons.IH [OF this Cons.prems(2,3)] show ?thesis by (cases entry) simp
  qed
qed

lemma protected_flatten:
  assumes "protected start a b F"
  shows "has_entry (flatten_items [] F) start (Single ''$'')"
proof -
  from assms have a: "a < length F" "fst (F ! a) = start" "b < length (snd (F ! a))"
    and c: "[''$''] \<in> set (completes (snd (F ! a) ! b))"
    by (auto simp: protected_def get_fs_def)
  from a have m: "(start, snd (F ! a)) \<in> set F"
    by (metis nth_mem prod.collapse)
  from a have n: "snd (F ! a) ! b \<in> set (snd (F ! a))" by simp
  from has_entry_flatten_items_new [OF m n c, of "[]"]
  show ?thesis by (simp add: follow_entry_def)
qed

text \<open>
  C6.  Whenever \<open>kfollow(k)\<close> returns its mapping, for any grammar and any \<open>k\<close>, the set
  of the start symbol in it holds the end-of-input sentinel \<open>$\<close>.  Before the first round,
  \<open>kfollow\<close> puts the complete FollowSet of the one sequence \<open>$\<close>, built with \<open>k = 1\<close> and
  pointing at the start symbol, into the list of the start symbol; the collection only
  appends to the lists, the fixpoint changes nothing of a complete FollowSet but its
  \<open>changed\<close> flag, and the join of the flattening keeps the resolved sequences of every
  FollowSet it joins.
\<close>

theorem C6_start_follow_has_end_marker:
  "(kfollow env table start k = Inr ret \<longrightarrow>
      (\<exists>s. map_of ret start = Some s \<and> Single ''$'' \<in> set s))
   \<and> (seed_start table start = Inr F \<longrightarrow>
      (\<exists>a b. a < length F \<and> fst (F ! a) = start \<and> b < length (snd (F ! a))
         \<and> get_fs F a b = FollowSet_complete [[''$'']] start 1))"
proof -
  have "kfollow env table start k = Inr ret \<longrightarrow>
      (\<exists>s. map_of ret start = Some s \<and> Single ''$'' \<in> set s)"
  proof
    assume "kfollow env table start k = Inr ret"
    then obtain F0 F1 where s: "seed_start table start = Inr F0"
      and r: "kfollow_rounds env table F0 [1..<k + 1] = Inr F1"
      and f: "ret = flatten_items [] F1"
      by (auto simp: kfollow_def split: sum.splits)
    from seed_protected [OF s] obtain a b where "protected start a b F0" by blast
    from protected_rounds [OF this r] have "protected start a b F1" .
    from protected_flatten [OF this] f
    show "\<exists>s. map_of ret start = Some s \<and> Single ''$'' \<in> set s"
      by (simp add: has_entry_def)
  qed
  moreover have "seed_start table start = Inr F \<longrightarrow>
      (\<exists>a b. a < length F \<and> fst (F ! a) = start \<and> b < length (snd (F ! a))
         \<and> get_fs F a b = FollowSet_complete [[''$'']] start 1)"
  proof
    assume h: "seed_start table start = Inr F"
    let ?F0 = "initial_sets table :: follow_lookup"
    from h obtain a where k: "key_index ?F0 start = Some a"
      and F: "F = ?F0[a := (fst (?F0 ! a), snd (?F0 ! a) @ [initial_start start])]"
      by (auto simp: seed_start_def Let_def split: option.splits)
    from key_index_Some [OF k] have a: "a < length ?F0" "fst (?F0 ! a) = start" by auto
    then have "a < length F \<and> fst (F ! a) = start
        \<and> length (snd (?F0 ! a)) < length (snd (F ! a))
        \<and> get_fs F a (length (snd (?F0 ! a))) = FollowSet_complete [[''$'']] start 1"
      by (simp add: F get_fs_def initial_start_def)
    then show "\<exists>a b. a < length F \<and> fst (F ! a) = start \<and> b < length (snd (F ! a))
         \<and> get_fs F a b = FollowSet_complete [[''$'']] start 1"
      by blast
  qed
  ultimately show ?thesis by blast
qed

text \<open>
  The theorem at \<open>S ::= A B\<close>, \<open>A ::= "a"\<close>, \<open>B ::= "b"\<close> and \<open>k = 1\<close>, where FOLLOW(S) and
  FOLLOW(B) hold \<open>$\<close> and FOLLOW(A) holds \<open>"b"\<close>.
\<close>

theorem C6_start_follow_has_end_marker_witness:
  "kfollow sequence_env sequence_grammar ''S'' 1 =
     Inr [(''S'', [Single ''$'']), (''A'', [Single (quoted ''b'')]), (''B'', [Single ''$''])]
   \<and> (\<exists>s. map_of [(''S'', [Single ''$'']), (''A'', [Single (quoted ''b'')]), (''B'', [Single ''$''])] ''S''
            = Some s \<and> Single ''$'' \<in> set s)
   \<and> seed_start sequence_grammar ''S'' =
       Inr [(''S'', [FollowSet_complete [[''$'']] ''S'' 1]), (''A'', []), (''B'', [])]"
proof -
  have run: "kfollow sequence_env sequence_grammar ''S'' 1 =
     Inr [(''S'', [Single ''$'']), (''A'', [Single (quoted ''b'')]), (''B'', [Single ''$''])]"
    by code_simp
  have seed: "seed_start sequence_grammar ''S'' =
       Inr [(''S'', [FollowSet_complete [[''$'']] ''S'' 1]), (''A'', []), (''B'', [])]"
    by code_simp
  from C6_start_follow_has_end_marker
    [where env = sequence_env and table = sequence_grammar and start = "''S''" and k = 1
       and ret = "[(''S'', [Single ''$'']), (''A'', [Single (quoted ''b'')]), (''B'', [Single ''$''])]"]
    run
  have "\<exists>s. map_of [(''S'', [Single ''$'']), (''A'', [Single (quoted ''b'')]), (''B'', [Single ''$''])] ''S''
            = Some s \<and> Single ''$'' \<in> set s"
    by blast
  with run seed show ?thesis by blast
qed

section \<open>The emitter\<close>

















lemma sequence_row_lines:
  "row_lines sequence_host (''S'', [(Single (quoted ''a''), (''S'', [''A'', ''B'']))]) =
     [''        '' @ [CHR 0x27] @ ''S'' @ [CHR 0x27] @ '': {'',
      ''            a: ('',
      ''                '' @ [CHR 0x27] @ ''S'' @ [CHR 0x27] @ '','',
      ''                ['',
      ''                    '' @ [CHR 0x27] @ ''A'' @ [CHR 0x27] @ '','',
      ''                    '' @ [CHR 0x27] @ ''B'' @ [CHR 0x27] @ '','',
      ''                ]'',
      ''            ),'',
      ''        },'']"
  by code_simp




end
